theory Spec2Isabelle
  imports Complex_Main "HOL-Library.AList" "HOL-Library.Multiset" "HOL-Library.Product_Lexorder"
begin

section \<open>Strings, characters and the string methods the program calls\<close>

text \<open>
  A Python \<open>str\<close> is modelled as a HOL \<open>string\<close>. A HOL character has eight bits and
  is read here as the code point of that number, so the model covers text whose code
  points lie below 256. The character classes follow CPython on that range:
  \<open>str.isspace\<close> (used by \<open>str.strip\<close> and by the pattern class \<open>\s\<close>), the decimal
  digits (\<open>\d\<close>), the alphanumerics plus underscore (\<open>\w\<close>), and the literal ranges
  \<open>[A-Z]\<close> and \<open>[a-z]\<close>.
\<close>

definition code :: "char \<Rightarrow> nat" where
  "code c = of_char c"

definition is_space :: "char \<Rightarrow> bool" where
  "is_space c = (let n = code c in
     (9 \<le> n \<and> n \<le> 13) \<or> (28 \<le> n \<and> n \<le> 32) \<or> n = 133 \<or> n = 160)"

definition is_digit :: "char \<Rightarrow> bool" where
  "is_digit c = (let n = code c in 48 \<le> n \<and> n \<le> 57)"

definition is_upper_AZ :: "char \<Rightarrow> bool" where
  "is_upper_AZ c = (let n = code c in 65 \<le> n \<and> n \<le> 90)"

definition is_lower_az :: "char \<Rightarrow> bool" where
  "is_lower_az c = (let n = code c in 97 \<le> n \<and> n \<le> 122)"

definition is_word :: "char \<Rightarrow> bool" where
  "is_word c = (let n = code c in
     (48 \<le> n \<and> n \<le> 57) \<or> (65 \<le> n \<and> n \<le> 90) \<or> (97 \<le> n \<and> n \<le> 122) \<or> n = 95 \<or>
     n = 170 \<or> n = 178 \<or> n = 179 \<or> n = 181 \<or> n = 185 \<or> n = 186 \<or>
     (188 \<le> n \<and> n \<le> 190) \<or> (192 \<le> n \<and> n \<le> 214) \<or> (216 \<le> n \<and> n \<le> 246) \<or>
     (248 \<le> n \<and> n \<le> 255))"

text \<open>\<open>str.lower\<close>, one character at a time: the upper-case letters below 256 move up by 32.\<close>

definition lower_char :: "char \<Rightarrow> char" where
  "lower_char c = (let n = code c in
     if (65 \<le> n \<and> n \<le> 90) \<or> (192 \<le> n \<and> n \<le> 214) \<or> (216 \<le> n \<and> n \<le> 222)
     then char_of (n + 32) else c)"

definition lower :: "string \<Rightarrow> string" where
  "lower s = map lower_char s"

text \<open>\<open>str.strip()\<close>: drop the white space at both ends.\<close>

definition strip :: "string \<Rightarrow> string" where
  "strip s = rev (dropWhile is_space (rev (dropWhile is_space s)))"

text \<open>\<open>s.endswith((c,))\<close> for a one-character suffix.\<close>

definition endswith :: "string \<Rightarrow> char \<Rightarrow> bool" where
  "endswith s c = (s \<noteq> [] \<and> last s = c)"

text \<open>\<open>s.split('\n')\<close>: the pieces between line feeds; never an empty list.\<close>

fun split_nl :: "string \<Rightarrow> string list" where
  "split_nl [] = [[]]"
| "split_nl (c # cs) =
     (if c = CHR 0x0A then [] # split_nl cs
      else (case split_nl cs of [] \<Rightarrow> [[c]] | l # ls \<Rightarrow> (c # l) # ls))"

text \<open>\<open>str(n)\<close> for a natural number, as the format string \<open>f"H{...}"\<close> renders it.\<close>

definition digit_char :: "nat \<Rightarrow> char" where
  "digit_char d = char_of (48 + d)"

fun str_nat :: "nat \<Rightarrow> string" where
  "str_nat n = (if n < 10 then [digit_char n] else str_nat (n div 10) @ [digit_char (n mod 10)])"

declare str_nat.simps [simp del]

section \<open>Regular expressions and \<open>re.match\<close>\<close>

text \<open>
  The patterns of the program are built from character classes, sequencing, the
  repetitions \<open>+\<close>, \<open>*\<close>, \<open>?\<close> and the end anchor \<open>$\<close>. \<open>re.match\<close> anchors at the start
  of the text (so the leading \<open>^\<close> adds nothing) and succeeds when some prefix matches.
  Whether a match exists is decided with Brzozowski derivatives; \<open>Fail\<close>, \<open>Eps\<close> and
  \<open>Alt\<close> only arise as derivatives. \<open>$\<close> holds at the end of the text and just before a
  line feed that ends the text; the flag passed to \<open>nullable\<close> and \<open>deriv\<close> says whether
  the current position is such a place.
\<close>

datatype cls = Digit | Space | Word | UpperAZ | LowerAZ | Lit char | Either cls cls

fun in_cls :: "cls \<Rightarrow> char \<Rightarrow> bool" where
  "in_cls Digit c = is_digit c"
| "in_cls Space c = is_space c"
| "in_cls Word c = is_word c"
| "in_cls UpperAZ c = is_upper_AZ c"
| "in_cls LowerAZ c = is_lower_az c"
| "in_cls (Lit d) c = (c = d)"
| "in_cls (Either a b) c = (in_cls a c \<or> in_cls b c)"

datatype rx = Fail | Eps | Eos | Atom cls | Seq rx rx | Alt rx rx | Star rx

definition Plus :: "rx \<Rightarrow> rx" where
  "Plus r = Seq r (Star r)"

definition Opt :: "rx \<Rightarrow> rx" where
  "Opt r = Alt r Eps"

fun nullable :: "bool \<Rightarrow> rx \<Rightarrow> bool" where
  "nullable e Fail = False"
| "nullable e Eps = True"
| "nullable e Eos = e"
| "nullable e (Atom a) = False"
| "nullable e (Seq r s) = (nullable e r \<and> nullable e s)"
| "nullable e (Alt r s) = (nullable e r \<or> nullable e s)"
| "nullable e (Star r) = True"

fun deriv :: "bool \<Rightarrow> char \<Rightarrow> rx \<Rightarrow> rx" where
  "deriv e c Fail = Fail"
| "deriv e c Eps = Fail"
| "deriv e c Eos = Fail"
| "deriv e c (Atom a) = (if in_cls a c then Eps else Fail)"
| "deriv e c (Seq r s) =
     (if nullable e r then Alt (Seq (deriv e c r) s) (deriv e c s) else Seq (deriv e c r) s)"
| "deriv e c (Alt r s) = Alt (deriv e c r) (deriv e c s)"
| "deriv e c (Star r) = Seq (deriv e c r) (Star r)"

definition at_end :: "string \<Rightarrow> bool" where
  "at_end s = (s = [] \<or> s = [CHR 0x0A])"

fun re_match :: "rx \<Rightarrow> string \<Rightarrow> bool" where
  "re_match r [] = nullable True r"
| "re_match r (c # cs) =
     (nullable (at_end (c # cs)) r \<or> re_match (deriv (at_end (c # cs)) c r) cs)"

section \<open>The heading classifier\<close>

text \<open>
  Font sizes are Python floats; the model computes with exact real numbers, so rounding,
  infinities and NaN are outside it. \<open>heading_patterns\<close> is the list of the source, in
  its order: \<open>^\d+\.?\s+\<close>, \<open>^[A-Z][a-z]*\s+[A-Z]\<close>, \<open>^[A-Z\s]+$\<close>, \<open>^\w+\.\d+\<close>.
\<close>

definition heading_patterns :: "rx list" where
  "heading_patterns =
     [Seq (Plus (Atom Digit)) (Seq (Opt (Atom (Lit CHR ''.''))) (Plus (Atom Space))),
      Seq (Atom UpperAZ) (Seq (Star (Atom LowerAZ)) (Seq (Plus (Atom Space)) (Atom UpperAZ))),
      Seq (Plus (Atom (Either UpperAZ Space))) Eos,
      Seq (Plus (Atom Word)) (Seq (Atom (Lit CHR ''.'')) (Plus (Atom Digit)))]"

text \<open>The loop over the patterns: the first pattern that matches returns \<open>True\<close>.\<close>

fun any_pattern :: "rx list \<Rightarrow> string \<Rightarrow> bool" where
  "any_pattern [] t = False"
| "any_pattern (p # ps) t = (if re_match p t then True else any_pattern ps t)"

definition is_potential_heading :: "string \<Rightarrow> real \<Rightarrow> real \<Rightarrow> real \<Rightarrow> bool" where
  "is_potential_heading text font_size avg_font_size page_width =
     (let t = strip text in
      if length t < 3 \<or> length t > 150 then False
      else if length t > 100 \<and> \<not> endswith t CHR '':'' then False
      else if any_pattern heading_patterns t then True
      else if font_size > avg_font_size * (11 / 10) then True
      else False)"

section \<open>The font-size hierarchy mapper\<close>

text \<open>
  \<open>sorted(set(font_size_hierarchy), reverse=True)\<close>: the distinct sizes, largest first.
  \<open>list.index\<close> returns the first position of a value and raises \<open>ValueError\<close> when
  the value is absent; \<open>py_index\<close> returns \<open>None\<close> for that.
\<close>

definition sorted_sizes :: "real list \<Rightarrow> real list" where
  "sorted_sizes font_size_hierarchy = rev (sort (remdups font_size_hierarchy))"

fun py_index :: "'a list \<Rightarrow> 'a \<Rightarrow> nat option" where
  "py_index [] x = None"
| "py_index (y # ys) x = (if y = x then Some 0 else map_option Suc (py_index ys x))"

definition get_heading_level :: "real \<Rightarrow> real list \<Rightarrow> string" where
  "get_heading_level font_size font_size_hierarchy =
     (let ss = sorted_sizes font_size_hierarchy in
      if length ss \<le> 1 then ''H1''
      else (case py_index ss font_size of
              Some index \<Rightarrow> ''H'' @ str_nat (min (index + 1) 3)
            | None \<Rightarrow> ''H3''))"

section \<open>The bookmark tree flattener\<close>

text \<open>
  \<open>process_bookmark\<close> reads an item of \<open>reader.outline\<close> either as a list of items or as
  an object with a title, a destination and children. \<open>BItem title dest children\<close>:
  \<open>dest\<close> is \<open>Some n\<close> when the item has a page and \<open>get_destination_page_number\<close>
  returns \<open>n\<close>, and \<open>None\<close> when the item has no page or the lookup raises;
  \<open>children\<close> is empty when the item has no children attribute or an empty one.
  The list \<open>outline\<close> that the nested function appends to is passed in and returned.
\<close>

datatype bookmark = BList "bookmark list" | BItem string "int option" "bookmark list"

record outline_entry =
  e_level :: string
  e_text :: string
  e_page :: int

fun process_bookmark :: "bookmark \<Rightarrow> nat \<Rightarrow> outline_entry list \<Rightarrow> outline_entry list" where
  "process_bookmark (BList items) level outline =
     fold (\<lambda>item acc. process_bookmark item level acc) items outline"
| "process_bookmark (BItem title0 dest children) level outline =
     fold (\<lambda>child acc. process_bookmark child (level + 1) acc) children
       (if length (strip title0) > 2
        then outline @ [\<lparr>e_level = ''H'' @ str_nat (min level 3),
                         e_text = strip title0,
                         e_page = (case dest of Some n \<Rightarrow> n + 1 | None \<Rightarrow> 1)\<rparr>]
        else outline)"

text \<open>
  The argument is \<open>reader.outline\<close>, or \<open>None\<close> when opening the reader or reading its
  outline raises.
\<close>

definition extract_outline_from_bookmarks :: "bookmark list option \<Rightarrow> outline_entry list" where
  "extract_outline_from_bookmarks reader_outline =
     (case reader_outline of
        None \<Rightarrow> []
      | Some ol \<Rightarrow> if ol \<noteq> [] then process_bookmark (BList ol) 1 [] else [])"





section \<open>Glyphs, pages and the content pipeline\<close>

text \<open>
  A glyph is the dictionary \<open>pdfplumber\<close> reports for a character. The program reads
  \<open>text\<close> by subscript and \<open>size\<close>, \<open>x0\<close>, \<open>y0\<close> with \<open>dict.get\<close> and a default, so
  these three may be absent. A page has a width, its glyphs, and the result of
  \<open>extract_text()\<close> (\<open>None\<close> when the call yields nothing or raises).
\<close>

record glyph =
  g_text :: string
  g_x0 :: "real option"
  g_y0 :: "real option"
  g_size :: "real option"

record page =
  p_width :: real
  p_chars :: "glyph list"
  p_text :: "string option"

definition dict_get :: "'a option \<Rightarrow> 'a \<Rightarrow> 'a" where
  "dict_get field dflt = (case field of None \<Rightarrow> dflt | Some v \<Rightarrow> v)"

text \<open>
  The dictionary of lists that both \<open>extract_title_from_content\<close> (keyed by size) and
  \<open>extract_outline_from_content\<close> (keyed by \<open>y0\<close>) build: an association list in
  insertion order; a glyph is appended to the list of its key.
\<close>

definition group_add :: "(glyph \<Rightarrow> real) \<Rightarrow> glyph \<Rightarrow> (real \<times> glyph list) list \<Rightarrow> (real \<times> glyph list) list" where
  "group_add key c groups =
     (case map_of groups (key c) of
        None \<Rightarrow> groups @ [(key c, [c])]
      | Some cs \<Rightarrow> AList.update (key c) (cs @ [c]) groups)"

definition group_by :: "(glyph \<Rightarrow> real) \<Rightarrow> glyph list \<Rightarrow> (real \<times> glyph list) list" where
  "group_by key chars = fold (group_add key) chars []"

definition lookup :: "(real \<times> glyph list) list \<Rightarrow> real \<Rightarrow> glyph list" where
  "lookup groups k = (case map_of groups k of Some cs \<Rightarrow> cs | None \<Rightarrow> [])"

subsection \<open>First pass: the document-wide average font size\<close>

definition all_font_sizes :: "page list \<Rightarrow> real list" where
  "all_font_sizes pages =
     concat (map (\<lambda>p. filter (\<lambda>size. size > 0) (map (\<lambda>c. dict_get (g_size c) 0) (p_chars p))) pages)"

text \<open>\<open>None\<close> when \<open>all_font_sizes\<close> is empty: the pipeline returns before dividing.\<close>

definition avg_font_size :: "page list \<Rightarrow> real option" where
  "avg_font_size pages =
     (let sizes = all_font_sizes pages in
      if sizes = [] then None else Some (sum_list sizes / of_nat (length sizes)))"

subsection \<open>Second pass: lines and heading candidates\<close>

text \<open>
  \<open>max(set(font_sizes), key=font_sizes.count)\<close> walks the set in the set's own iteration
  order and keeps the first element whose count is largest. That order is decided by
  the hash table and is not visible in the source, so it is a parameter \<open>set_iter\<close>:
  \<open>set_iter xs\<close> lists the elements of \<open>set(xs)\<close> in iteration order. \<open>max\<close> of an empty
  iterable raises \<open>ValueError\<close>, here \<open>None\<close>.
\<close>

fun py_max_key :: "('a \<Rightarrow> nat) \<Rightarrow> 'a list \<Rightarrow> 'a option" where
  "py_max_key f [] = None"
| "py_max_key f (x # xs) = Some (fold (\<lambda>y best. if f y > f best then y else best) xs x)"

definition dominant_font_size :: "(real list \<Rightarrow> real list) \<Rightarrow> real list \<Rightarrow> real option" where
  "dominant_font_size set_iter font_sizes = py_max_key (count_list font_sizes) (set_iter font_sizes)"

definition set_iter_ok :: "(real list \<Rightarrow> real list) \<Rightarrow> bool" where
  "set_iter_ok set_iter = (\<forall>xs. distinct (set_iter xs) \<and> set (set_iter xs) = set xs)"

record heading =
  h_text :: string
  h_page :: int
  h_font_size :: real

datatype error = ValueError

text \<open>
  The body of the loop over the lines of a page, for the glyphs \<open>lines[y_pos]\<close>:
  \<open>Inr None\<close> when the line is skipped or is no heading, \<open>Inr (Some h)\<close> when \<open>h\<close> is
  appended to \<open>potential_headings\<close>, \<open>Inl\<close> when an exception leaves the loop.
\<close>

definition line_chars_of :: "glyph list \<Rightarrow> glyph list" where
  "line_chars_of cs = sort_key (\<lambda>c. dict_get (g_x0 c) 0) cs"

definition line_text_of :: "glyph list \<Rightarrow> string" where
  "line_text_of line_chars = strip (concat (map g_text line_chars))"

definition line_font_sizes :: "real \<Rightarrow> glyph list \<Rightarrow> real list" where
  "line_font_sizes avg line_chars = map (\<lambda>c. dict_get (g_size c) avg) line_chars"

definition process_line ::
  "(real list \<Rightarrow> real list) \<Rightarrow> real \<Rightarrow> int \<Rightarrow> real \<Rightarrow> glyph list \<Rightarrow> error + heading option" where
  "process_line set_iter avg page_num page_width cs =
     (let line_chars = line_chars_of cs;
          line_text = line_text_of line_chars
      in if line_text = [] then Inr None
         else (case dominant_font_size set_iter (line_font_sizes avg line_chars) of
                 None \<Rightarrow> Inl ValueError
               | Some dominant \<Rightarrow>
                   if is_potential_heading line_text dominant avg page_width
                   then Inr (Some \<lparr>h_text = line_text, h_page = page_num + 1, h_font_size = dominant\<rparr>)
                   else Inr None))"

text \<open>Appending the results of a sequence of loop bodies, stopping at the first exception.\<close>

fun collect :: "(error + heading option) list \<Rightarrow> error + heading list" where
  "collect [] = Inr []"
| "collect (Inl e # rs) = Inl e"
| "collect (Inr None # rs) = collect rs"
| "collect (Inr (Some h) # rs) = (case collect rs of Inl e \<Rightarrow> Inl e | Inr hs \<Rightarrow> Inr (h # hs))"

text \<open>The keys of \<open>lines\<close>, largest first: \<open>sorted(lines.keys(), reverse=True)\<close>.\<close>

definition line_keys :: "(real \<times> glyph list) list \<Rightarrow> real list" where
  "line_keys lines = rev (sort (map fst lines))"

definition page_results ::
  "(real list \<Rightarrow> real list) \<Rightarrow> real \<Rightarrow> nat \<times> page \<Rightarrow> (error + heading option) list" where
  "page_results set_iter avg np =
     (let page_num = int (fst np); pg = snd np; chars = p_chars pg in
      if chars = [] then []
      else (let lines = group_by (\<lambda>c. dict_get (g_y0 c) 0) chars in
            map (\<lambda>y_pos. process_line set_iter avg page_num (p_width pg) (lookup lines y_pos))
                (line_keys lines)))"

definition potential_headings ::
  "(real list \<Rightarrow> real list) \<Rightarrow> real \<Rightarrow> page list \<Rightarrow> error + heading list" where
  "potential_headings set_iter avg pages =
     collect (concat (map (page_results set_iter avg) (enumerate 0 pages)))"

subsection \<open>Deduplication, ordering and levels\<close>

definition text_key :: "heading \<Rightarrow> string" where
  "text_key h = strip (lower (h_text h))"

definition dedup_step :: "heading \<Rightarrow> string set \<times> heading list \<Rightarrow> string set \<times> heading list" where
  "dedup_step h st =
     (let seen_texts = fst st; unique = snd st; k = text_key h in
      if k \<notin> seen_texts \<and> length k > 2 then (insert k seen_texts, unique @ [h])
      else (seen_texts, unique))"

definition unique_headings :: "heading list \<Rightarrow> heading list" where
  "unique_headings hs = snd (fold dedup_step hs ({}, []))"

definition sort_headings :: "heading list \<Rightarrow> heading list" where
  "sort_headings hs = sort_key (\<lambda>h. (h_page h, - h_font_size h)) hs"

definition final_outline :: "heading list \<Rightarrow> outline_entry list" where
  "final_outline sorted_unique =
     (let font_size_hierarchy = map h_font_size sorted_unique in
      map (\<lambda>h. \<lparr>e_level = get_heading_level (h_font_size h) font_size_hierarchy,
                 e_text = h_text h, e_page = h_page h\<rparr>) sorted_unique)"

text \<open>
  The whole function. \<open>outline\<close> is filled only by the last loop, so every earlier
  return and every exception yields the empty list.
\<close>

definition extract_outline_from_content ::
  "(real list \<Rightarrow> real list) \<Rightarrow> page list \<Rightarrow> outline_entry list" where
  "extract_outline_from_content set_iter pages =
     (case avg_font_size pages of
        None \<Rightarrow> []
      | Some avg \<Rightarrow>
          (case potential_headings set_iter avg pages of
             Inl e \<Rightarrow> []
           | Inr hs \<Rightarrow> final_outline (sort_headings (unique_headings hs))))"

section \<open>The title resolver\<close>

text \<open>
  A document as the two libraries present it: \<open>d_meta\<close> is the value of
  \<open>reader.metadata.get('/Title', '')\<close> (\<open>None\<close> when the reader cannot be opened, there
  is no metadata, or the value cannot be stripped), \<open>d_pages\<close> the pages (\<open>None\<close>
  when the file cannot be opened) and \<open>d_outline\<close> the bookmark items.
\<close>

record document =
  d_meta :: "string option"
  d_pages :: "page list option"
  d_outline :: "bookmark list option"

definition extract_title_from_metadata :: "document \<Rightarrow> string option" where
  "extract_title_from_metadata d =
     (case d_meta d of
        None \<Rightarrow> None
      | Some raw \<Rightarrow> (let title = strip raw in if title \<noteq> [] then Some title else None))"

text \<open>The two loops over lines: the first stripped line longer than 5 and shorter than 150.\<close>

definition first_title_line :: "string list \<Rightarrow> string option" where
  "first_title_line lines = find (\<lambda>line. length line > 5 \<and> length line < 150) (map strip lines)"

text \<open>\<open>max\<close> of a sequence of numbers; \<open>None\<close> for the empty sequence.\<close>

fun py_max :: "real list \<Rightarrow> real option" where
  "py_max [] = None"
| "py_max (x # xs) = Some (fold (\<lambda>y best. if y > best then y else best) xs x)"

definition largest_font_line :: "glyph list \<Rightarrow> string option" where
  "largest_font_line chars =
     (let font_sizes = group_by (\<lambda>c. dict_get (g_size c) 0) chars in
      case py_max (map fst font_sizes) of
        None \<Rightarrow> None
      | Some largest_font \<Rightarrow>
          first_title_line (split_nl (strip (concat (map g_text (lookup font_sizes largest_font))))))"

definition fallback_line :: "page \<Rightarrow> string option" where
  "fallback_line first_page =
     (case p_text first_page of
        None \<Rightarrow> None
      | Some txt \<Rightarrow> if txt \<noteq> [] then first_title_line (split_nl txt) else None)"

definition extract_title_from_content :: "document \<Rightarrow> string option" where
  "extract_title_from_content d =
     (case d_pages d of
        None \<Rightarrow> None
      | Some [] \<Rightarrow> None
      | Some (first_page # rest) \<Rightarrow>
          if p_chars first_page = [] then None
          else (case largest_font_line (p_chars first_page) of
                  Some line \<Rightarrow> Some line
                | None \<Rightarrow> fallback_line first_page))"

definition truthy :: "string option \<Rightarrow> bool" where
  "truthy r = (case r of None \<Rightarrow> False | Some t \<Rightarrow> t \<noteq> [])"

definition extract_title :: "document \<Rightarrow> string" where
  "extract_title d =
     (if truthy (extract_title_from_metadata d) then the (extract_title_from_metadata d)
      else if truthy (extract_title_from_content d) then the (extract_title_from_content d)
      else ''Untitled Document'')"

section \<open>The outline resolver\<close>

definition extract_outline :: "(real list \<Rightarrow> real list) \<Rightarrow> document \<Rightarrow> outline_entry list" where
  "extract_outline set_iter d =
     (let outline = extract_outline_from_bookmarks (d_outline d) in
      if outline \<noteq> [] then outline
      else (case d_pages d of None \<Rightarrow> [] | Some pages \<Rightarrow> extract_outline_from_content set_iter pages))"

section \<open>The rules of the specification, in its words\<close>

text \<open>
  The four lexical rules of the heading classifier as the specification names them:
  a leading numbered section (digits, an optional full stop, then white space), a
  title-case start (a capital, lower-case letters, white space, a capital), a line
  of capitals and white space only, and a dotted sub-section (word characters, a full
  stop, a digit).
\<close>

definition numbered_section :: "string \<Rightarrow> bool" where
  "numbered_section t =
     (takeWhile is_digit t \<noteq> [] \<and>
      (case dropWhile is_digit t of
         [] \<Rightarrow> False
       | c # cs \<Rightarrow> is_space c \<or> (c = CHR ''.'' \<and> (case cs of [] \<Rightarrow> False | w # u \<Rightarrow> is_space w))))"

definition title_case_start :: "string \<Rightarrow> bool" where
  "title_case_start t =
     (case t of
        [] \<Rightarrow> False
      | c # cs \<Rightarrow> is_upper_AZ c \<and>
          (case dropWhile is_lower_az cs of
             [] \<Rightarrow> False
           | w # ws \<Rightarrow> is_space w \<and>
               (case dropWhile is_space ws of [] \<Rightarrow> False | u # us \<Rightarrow> is_upper_AZ u)))"

definition all_upper :: "string \<Rightarrow> bool" where
  "all_upper t = (t \<noteq> [] \<and> list_all (\<lambda>c. is_upper_AZ c \<or> is_space c) t)"

definition dotted_subsection :: "string \<Rightarrow> bool" where
  "dotted_subsection t =
     (takeWhile is_word t \<noteq> [] \<and>
      (case dropWhile is_word t of
         d # n # u \<Rightarrow> d = CHR ''.'' \<and> is_digit n
       | _ \<Rightarrow> False))"

text \<open>The number a level string stands for.\<close>

definition level_number :: "string \<Rightarrow> nat" where
  "level_number l = (if l = ''H1'' then 1 else if l = ''H2'' then 2 else 3)"

section \<open>Example inputs\<close>

text \<open>
  A page with a body line of size 10 (its two glyphs out of order) and a line
  \<open>TOP\<close> of size 20 above it, and the candidates a document of two such pages yields.
\<close>

definition ex_glyph :: "string \<Rightarrow> real \<Rightarrow> real \<Rightarrow> real \<Rightarrow> glyph" where
  "ex_glyph t x y s = \<lparr>g_text = t, g_x0 = Some x, g_y0 = Some y, g_size = Some s\<rparr>"

definition ex_page :: page where
  "ex_page = \<lparr>p_width = 600,
     p_chars = [ex_glyph ''text'' 2 700 10, ex_glyph ''Body '' 1 700 10, ex_glyph ''TOP'' 1 750 20],
     p_text = Some ''TOP''\<rparr>"

definition ex_candidates :: "heading list" where
  "ex_candidates = [\<lparr>h_text = ''TOP'', h_page = 1, h_font_size = 20\<rparr>,
                    \<lparr>h_text = ''TOP'', h_page = 2, h_font_size = 20\<rparr>]"

section \<open>Quantities the specification names\<close>



text \<open>
  The first-seen most frequent element of a list, and an iteration order for sets:
  ascending. CPython iterates the set of the floats 12.0 and 10.0 in this order.
\<close>

definition first_seen_mode :: "real list \<Rightarrow> real option" where
  "first_seen_mode xs = py_max_key (count_list xs) xs"

definition ascending_iter :: "real list \<Rightarrow> real list" where
  "ascending_iter xs = sort (remdups xs)"


definition ex_sizeless_line :: "glyph list" where
  "ex_sizeless_line =
     [\<lparr>g_text = ''ONE'', g_x0 = Some 2, g_y0 = Some 500, g_size = None\<rparr>,
      \<lparr>g_text = ''CHAPTER '', g_x0 = Some 1, g_y0 = Some 500, g_size = None\<rparr>]"

section \<open>The title chain of the specification\<close>

text \<open>
  The title chain in the words of the specification: the metadata title when it is
  not empty after stripping; on the first page, the first line in range of the text
  of the glyphs of the largest font size; the first line in range of the extracted
  text of the first page; and the literal. A line is in range when its stripped
  length is between 6 and 149. The chain returns its first success.
\<close>

definition first_page :: "document \<Rightarrow> page option" where
  "first_page d = (case d_pages d of None \<Rightarrow> None | Some [] \<Rightarrow> None | Some (p # ps) \<Rightarrow> Some p)"

definition glyph_size :: "glyph \<Rightarrow> real" where
  "glyph_size c = dict_get (g_size c) 0"

definition largest_size_group :: "glyph list \<Rightarrow> glyph list" where
  "largest_size_group chars =
     filter (\<lambda>c. glyph_size c = Max (set (map glyph_size chars))) chars"

definition first_line_in_range :: "string \<Rightarrow> string option" where
  "first_line_in_range txt =
     find (\<lambda>line. 6 \<le> length line \<and> length line \<le> 149) (map strip (split_nl txt))"

definition metadata_title :: "document \<Rightarrow> string option" where
  "metadata_title d =
     (case d_meta d of
        None \<Rightarrow> None
      | Some raw \<Rightarrow> if strip raw \<noteq> [] then Some (strip raw) else None)"

definition largest_font_title :: "page \<Rightarrow> string option" where
  "largest_font_title p =
     first_line_in_range (strip (concat (map g_text (largest_size_group (p_chars p)))))"

definition first_text_line :: "page \<Rightarrow> string option" where
  "first_text_line p = (case p_text p of None \<Rightarrow> None | Some txt \<Rightarrow> first_line_in_range txt)"

fun first_success :: "string option list \<Rightarrow> string" where
  "first_success [] = ''Untitled Document''"
| "first_success (None # steps) = first_success steps"
| "first_success (Some t # steps) = t"

definition title_chain :: "document \<Rightarrow> string" where
  "title_chain d =
     first_success
       [metadata_title d,
        Option.bind (first_page d) largest_font_title,
        Option.bind (first_page d) first_text_line]"

text \<open>A document whose metadata has no title and whose first page is \<open>ex_page\<close>.\<close>

definition ex_document :: document where
  "ex_document = \<lparr>d_meta = Some ''  '', d_pages = Some [ex_page\<lparr>p_text := Some ''Body text''\<rparr>], d_outline = None\<rparr>"

section \<open>Outlines, returns and document order\<close>




text \<open>
  The return statement a call of \<open>get_heading_level\<close> reaches: the early return for
  at most one distinct size, the return inside \<open>try\<close> with the index found, or the
  return of the \<open>except ValueError\<close> branch. \<open>get_heading_level_traced\<close> is the call
  together with the return it reaches.
\<close>

datatype level_branch = SingleSize | Indexed nat | NotFound

definition get_heading_level_branch :: "real \<Rightarrow> real list \<Rightarrow> level_branch" where
  "get_heading_level_branch font_size font_size_hierarchy =
     (let ss = sorted_sizes font_size_hierarchy in
      if length ss \<le> 1 then SingleSize
      else (case py_index ss font_size of
              Some index \<Rightarrow> Indexed index
            | None \<Rightarrow> NotFound))"

definition get_heading_level_traced :: "real \<Rightarrow> real list \<Rightarrow> string \<times> level_branch" where
  "get_heading_level_traced font_size font_size_hierarchy =
     (get_heading_level font_size font_size_hierarchy,
      get_heading_level_branch font_size font_size_hierarchy)"

text \<open>
  The last loop of the content pipeline and the whole pipeline once more, each entry
  of the outline paired with the return its call of \<open>get_heading_level\<close> reached.
\<close>

definition final_loop :: "heading list \<Rightarrow> (outline_entry \<times> level_branch) list" where
  "final_loop sorted_unique =
     (let font_size_hierarchy = map h_font_size sorted_unique in
      map (\<lambda>h. case get_heading_level_traced (h_font_size h) font_size_hierarchy of
                 (level, branch) \<Rightarrow>
                   (\<lparr>e_level = level, e_text = h_text h, e_page = h_page h\<rparr>, branch))
          sorted_unique)"

definition extract_outline_from_content_traced ::
  "(real list \<Rightarrow> real list) \<Rightarrow> page list \<Rightarrow> (outline_entry \<times> level_branch) list" where
  "extract_outline_from_content_traced set_iter pages =
     (case avg_font_size pages of
        None \<Rightarrow> []
      | Some avg \<Rightarrow>
          (case potential_headings set_iter avg pages of
             Inl e \<Rightarrow> []
           | Inr hs \<Rightarrow> final_loop (sort_headings (unique_headings hs))))"

text \<open>
  Document order in the words of the specification. The baselines of a page are the
  distinct \<open>y0\<close> values of its glyphs, the highest first, which is top to bottom on a
  page whose origin is at the bottom left; the line of a baseline is the glyphs with
  that \<open>y0\<close>, in the order met. The lines of a document are the lines of its pages,
  page after page, each given as page index, baseline and page. One line comes
  before another when its page comes first, or on the same page when its baseline
  is higher. \<open>line_candidate\<close> is the heading candidate a line yields, if any.
\<close>

definition glyph_y :: "glyph \<Rightarrow> real" where
  "glyph_y c = dict_get (g_y0 c) 0"

definition page_baselines :: "page \<Rightarrow> real list" where
  "page_baselines pg = rev (sorted_list_of_set (glyph_y ` set (p_chars pg)))"

definition baseline_glyphs :: "page \<Rightarrow> real \<Rightarrow> glyph list" where
  "baseline_glyphs pg y = filter (\<lambda>c. glyph_y c = y) (p_chars pg)"

definition lines_from :: "nat \<Rightarrow> page list \<Rightarrow> (nat \<times> real \<times> page) list" where
  "lines_from k pages =
     concat (map (\<lambda>np. map (\<lambda>y. (fst np, y, snd np)) (page_baselines (snd np))) (enumerate k pages))"

definition document_lines :: "page list \<Rightarrow> (nat \<times> real \<times> page) list" where
  "document_lines pages = lines_from 0 pages"

definition before_in_document :: "nat \<times> real \<times> page \<Rightarrow> nat \<times> real \<times> page \<Rightarrow> bool" where
  "before_in_document l l' =
     (fst l < fst l' \<or> (fst l = fst l' \<and> fst (snd l') < fst (snd l)))"

definition line_candidate ::
  "(real list \<Rightarrow> real list) \<Rightarrow> real \<Rightarrow> nat \<times> real \<times> page \<Rightarrow> heading option" where
  "line_candidate set_iter avg l =
     (case process_line set_iter avg (int (fst l)) (p_width (snd (snd l)))
             (baseline_glyphs (snd (snd l)) (fst (snd l))) of
        Inr (Some h) \<Rightarrow> Some h
      | _ \<Rightarrow> None)"

text \<open>
  A page with the text \<open>TOP\<close> twice: lower on the page in size 30, met first, and
  higher on the page in size 20.
\<close>

definition ex_twice_page :: page where
  "ex_twice_page = \<lparr>p_width = 600,
     p_chars = [ex_glyph ''TOP'' 1 700 30, ex_glyph ''TOP'' 1 750 20], p_text = None\<rparr>"

section \<open>Properties of the font-size hierarchy mapper\<close>

lemma str_nat_small: "str_nat 1 = ''1''" "str_nat 2 = ''2''" "str_nat 3 = ''3''"
  by code_simp+

lemma py_index_Some_iff:
  "py_index ys x = Some r \<longleftrightarrow> r < length ys \<and> ys ! r = x \<and> (\<forall>j<r. ys ! j \<noteq> x)"
proof (induction ys arbitrary: r)
  case Nil
  then show ?case by simp
next
  case (Cons y ys)
  show ?case
  proof (cases "y = x")
    case True
    then show ?thesis by (cases r) auto
  next
    case False
    then show ?thesis 
      using Cons.IH
      apply (cases r) 
       apply (auto simp: nth_Cons split: nat.splits)
      done
  qed
qed

lemma py_index_None_iff: "py_index ys x = None \<longleftrightarrow> x \<notin> set ys"
  by (induction ys) auto

lemma py_index_distinct:
  "distinct ys \<Longrightarrow> r < length ys \<Longrightarrow> py_index ys (ys ! r) = Some r"
  by (auto simp: py_index_Some_iff nth_eq_iff_index_eq)

lemma sorted_sizes_props:
  "distinct (sorted_sizes h)" "sorted (rev (sorted_sizes h))" "set (sorted_sizes h) = set h"
  by (simp_all add: sorted_sizes_def)

lemma sorted_sizes_order:
  assumes "i < length (sorted_sizes h)" "j < length (sorted_sizes h)"
    and "sorted_sizes h ! j \<le> sorted_sizes h ! i"
  shows "i \<le> j"
proof (rule ccontr)
  assume "\<not> i \<le> j"
  then have ji: "j < i" by simp
  have "sorted (rev (sorted_sizes h))" by (rule sorted_sizes_props)
  then have "sorted_sizes h ! i \<le> sorted_sizes h ! j"
    using ji assms(1) by (simp add: sorted_rev_nth_mono)
  with assms(3) have "sorted_sizes h ! i = sorted_sizes h ! j" by simp
  with assms(1,2) sorted_sizes_props(1)[of h] have "i = j"
    by (simp add: nth_eq_iff_index_eq)
  with ji show False by simp
qed

lemma sorted_sizes_length: "length (sorted_sizes h) = card (set h)"
  by (simp add: sorted_sizes_def length_remdups_card_conv)

lemma sorted_sizes_list_of_set: "sorted_sizes h = rev (sorted_list_of_set (set h))"
  by (simp add: sorted_sizes_def sorted_list_of_set_sort_remdups)

lemma get_heading_level_single:
  "card (set h) \<le> 1 \<Longrightarrow> get_heading_level s h = ''H1''"
  by (simp add: get_heading_level_def sorted_sizes_length)

lemma get_heading_level_at:
  assumes "1 < card (set h)" "r < length (sorted_sizes h)"
  shows "get_heading_level (sorted_sizes h ! r) h = ''H'' @ str_nat (min (r + 1) 3)"
  using assms py_index_distinct[OF sorted_sizes_props(1) assms(2)]
  by (simp add: get_heading_level_def sorted_sizes_length)

lemma str_nat_Suc: "str_nat (Suc 0) = ''1''" "str_nat (Suc (Suc 0)) = ''2''"
  "str_nat (Suc (Suc (Suc 0))) = ''3''"
  using str_nat_small by (simp_all add: numeral_2_eq_2 numeral_3_eq_3)

lemma level_number_at: "level_number (''H'' @ str_nat (min (r + 1) 3)) = min (r + 1) 3"
proof -
  consider "r = 0" | "r = 1" | "2 \<le> r" by linarith
  then show ?thesis
  proof cases
    case 1
    then show ?thesis by (simp add: level_number_def str_nat_Suc)
  next
    case 2
    then show ?thesis by (simp add: level_number_def str_nat_Suc)
  next
    case 3
    then have "min (r + 1) 3 = 3" by simp
    then show ?thesis by (simp only: level_number_def str_nat_small) simp
  qed
qed

text \<open>
  C3. For a candidate size \<open>s\<close> drawn from the sizes \<open>h\<close>: the list the mapper ranks in is
  the distinct sizes in descending order; with at most one distinct size the level is
  H1; otherwise the level is H followed by \<open>min (r + 1) 3\<close> where \<open>r\<close> is the position of \<open>s\<close>
  in that list; and a size at least as large as another never gets a larger level number.
\<close>

theorem heading_level_by_rank:
  assumes "s \<in> set h" and "s' \<in> set h"
  shows "sorted_sizes h = rev (sorted_list_of_set (set h)) \<and>
         (card (set h) \<le> 1 \<longrightarrow> get_heading_level s h = ''H1'') \<and>
         (1 < card (set h) \<longrightarrow>
            (\<exists>r < length (sorted_sizes h). sorted_sizes h ! r = s \<and>
               get_heading_level s h = ''H'' @ str_nat (min (r + 1) 3))) \<and>
         (s' \<le> s \<longrightarrow> level_number (get_heading_level s h) \<le> level_number (get_heading_level s' h))"
proof -
  from assms(1) obtain r where r: "r < length (sorted_sizes h)" "sorted_sizes h ! r = s"
    by (metis in_set_conv_nth sorted_sizes_props(3))
  from assms(2) obtain r' where r': "r' < length (sorted_sizes h)" "sorted_sizes h ! r' = s'"
    by (metis in_set_conv_nth sorted_sizes_props(3))
  have rank: "1 < card (set h) \<longrightarrow>
        (\<exists>r < length (sorted_sizes h). sorted_sizes h ! r = s \<and>
               get_heading_level s h = ''H'' @ str_nat (min (r + 1) 3))"
    using r get_heading_level_at[of h r] by auto
  have mono: "level_number (get_heading_level s h) \<le> level_number (get_heading_level s' h)"
    if le: "s' \<le> s"
  proof (cases "card (set h) \<le> 1")
    case True
    then show ?thesis by (simp add: get_heading_level_single)
  next
    case False
    then have many: "1 < card (set h)" by simp
    have "r \<le> r'" using sorted_sizes_order[of r h r'] r r' le by simp
    moreover have "get_heading_level s h = ''H'' @ str_nat (min (r + 1) 3)"
      using get_heading_level_at[OF many r(1)] r(2) by simp
    moreover have "get_heading_level s' h = ''H'' @ str_nat (min (r' + 1) 3)"
      using get_heading_level_at[OF many r'(1)] r'(2) by simp
    ultimately show ?thesis by (simp only: level_number_at)
  qed
  show ?thesis
    using sorted_sizes_list_of_set get_heading_level_single rank mono by blast
qed

theorem heading_level_by_rank_witness:
  "(9::real) \<in> set [12, 10, 18, 9, 10] \<and> (18::real) \<in> set [12, 10, 18, 9, 10] \<and>
   sorted_sizes [12, 10, 18, 9, 10] = [18, 12, 10, 9] \<and>
   get_heading_level 18 [12, 10, 18, 9, 10] = ''H1'' \<and>
   get_heading_level 9 [12, 10, 18, 9, 10] = ''H3'' \<and>
   level_number (get_heading_level 18 [12, 10, 18, 9, 10]) \<le> level_number (get_heading_level 9 [12, 10, 18, 9, 10])"
proof -
  have a: "(18::real) \<in> set [12, 10, 18, 9, 10]" and b: "(9::real) \<in> set [12, 10, 18, 9, 10]"
    by simp_all
  have ss: "sorted_sizes [12, 10, 18, 9, 10] = [18, 12, 10, 9]"
    by (simp add: sorted_sizes_def)
  have l1: "get_heading_level 18 [12, 10, 18, 9, 10] = ''H1''"
    by (simp add: get_heading_level_def ss str_nat_Suc numeral_3_eq_3)
  have l3: "get_heading_level 9 [12, 10, 18, 9, 10] = ''H3''"
    by (simp add: get_heading_level_def ss str_nat_Suc numeral_3_eq_3)
  from heading_level_by_rank[OF a b] a b ss l1 l3 show ?thesis by simp
qed

section \<open>Properties of the bookmark tree flattener\<close>









text \<open>
  An item of the outline that is itself a list is walked at the level of the list
  that holds it: its items get no deeper level.
\<close>

lemma process_bookmark_nested_list:
  "process_bookmark (BList (xs @ [BList ys])) level outline =
     process_bookmark (BList ys) level (process_bookmark (BList xs) level outline)"
  by simp

section \<open>Properties of the pattern matcher and the heading classifier\<close>

lemma re_match_Fail: "re_match Fail s = False"
  by (induction s) simp_all

lemma re_match_Eps: "re_match Eps s = True"
  by (cases s) simp_all

lemma re_match_Star: "re_match (Star r) s = True"
  by (cases s) simp_all

lemma re_match_Eos: "re_match Eos s = at_end s"
  by (cases s) (simp_all add: re_match_Fail at_end_def)

lemma re_match_Alt: "re_match (Alt a b) s = (re_match a s \<or> re_match b s)"
  by (induction s arbitrary: a b) auto

lemma re_match_Seq_Fail: "re_match (Seq Fail r) s = False"
  by (induction s) simp_all

lemma re_match_Seq_Eps: "re_match (Seq Eps r) s = re_match r s"
  by (cases s) (simp_all add: re_match_Alt re_match_Seq_Fail)

lemma re_match_Seq_Alt:
  "re_match (Seq (Alt x y) r) s = (re_match (Seq x r) s \<or> re_match (Seq y r) s)"
proof (induction s arbitrary: x y r)
  case Nil
  then show ?case by auto
next
  case (Cons c cs)
  show ?case
    by (auto simp: re_match_Alt Cons.IH)
qed

lemma re_match_Seq_assoc:
  "re_match (Seq (Seq a b) r) s = re_match (Seq a (Seq b r)) s"
proof (induction s arbitrary: a b r)
  case Nil
  then show ?case by auto
next
  case (Cons c cs)
  show ?case
    by (auto simp: re_match_Alt re_match_Seq_Alt Cons.IH)
qed

lemma re_match_Atom:
  "re_match (Atom a) s = (case s of [] \<Rightarrow> False | c # cs \<Rightarrow> in_cls a c)"
  by (cases s) (simp_all add: re_match_Eps re_match_Fail)

lemma re_match_Seq_Atom:
  "re_match (Seq (Atom a) r) s = (case s of [] \<Rightarrow> False | c # cs \<Rightarrow> in_cls a c \<and> re_match r cs)"
  by (cases s) (simp_all add: re_match_Seq_Eps re_match_Seq_Fail)

lemma re_match_Seq_Star_Atom:
  "re_match (Seq (Star (Atom a)) r) s =
     (re_match r s \<or> (case s of [] \<Rightarrow> False | c # cs \<Rightarrow> in_cls a c \<and> re_match (Seq (Star (Atom a)) r) cs))"
  by (cases s)
     (auto simp: re_match_Alt re_match_Seq_assoc re_match_Seq_Eps re_match_Seq_Fail)

lemma re_match_Seq_Plus:
  "re_match (Seq (Plus x) r) s = re_match (Seq x (Seq (Star x) r)) s"
  by (simp add: Plus_def re_match_Seq_assoc)

lemma re_match_Seq_Opt:
  "re_match (Seq (Opt x) r) s = (re_match (Seq x r) s \<or> re_match r s)"
  by (simp add: Opt_def re_match_Seq_Alt re_match_Seq_Eps)

lemma re_match_Plus_Atom:
  "re_match (Plus (Atom a)) s = (case s of [] \<Rightarrow> False | c # cs \<Rightarrow> in_cls a c)"
  by (simp add: Plus_def re_match_Seq_Atom re_match_Star split: list.splits)

declare re_match.simps [simp del]

text \<open>A run \<open>a*\<close> before a pattern that cannot begin with a character of \<open>a\<close> is consumed whole.\<close>

lemma re_match_Star_dropWhile:
  assumes "\<And>c cs. in_cls a c \<Longrightarrow> \<not> re_match r (c # cs)"
  shows "re_match (Seq (Star (Atom a)) r) s = re_match r (dropWhile (in_cls a) s)"
proof (induction s)
  case Nil
  then show ?case by (simp add: re_match_Seq_Star_Atom[of a r "[]"])
next
  case (Cons c cs)
  show ?case
    using assms[of c cs] Cons.IH
    by (subst re_match_Seq_Star_Atom) auto
qed


subsection \<open>Facts about the character classes\<close>

lemma code_dot: "code CHR ''.'' = 46"
  by (simp add: code_def)

lemma code_lf: "code (CHR 0x0A) = 10"
  by (simp add: code_def)

lemma digit_not_space: "is_digit c \<Longrightarrow> \<not> is_space c"
  by (auto simp: is_digit_def is_space_def Let_def)

lemma digit_not_dot: "is_digit c \<Longrightarrow> c \<noteq> CHR ''.''"
  using code_dot by (auto simp: is_digit_def Let_def)

lemma word_not_dot: "is_word c \<Longrightarrow> c \<noteq> CHR ''.''"
  using code_dot by (auto simp: is_word_def Let_def)

lemma lower_not_space: "is_lower_az c \<Longrightarrow> \<not> is_space c"
  by (auto simp: is_lower_az_def is_space_def Let_def)

lemma space_not_upper: "is_space c \<Longrightarrow> \<not> is_upper_AZ c"
  by (auto simp: is_upper_AZ_def is_space_def Let_def)

lemma lf_is_space: "is_space (CHR 0x0A)"
  by (simp add: is_space_def code_lf)

lemma in_cls_eqs:
  "in_cls Digit = is_digit" "in_cls Space = is_space" "in_cls Word = is_word"
  "in_cls UpperAZ = is_upper_AZ" "in_cls LowerAZ = is_lower_az"
  "in_cls (Either UpperAZ Space) = (\<lambda>c. is_upper_AZ c \<or> is_space c)"
  by (rule ext, simp)+

subsection \<open>The four patterns\<close>

lemma pattern_numbered:
  "re_match (Seq (Plus (Atom Digit)) (Seq (Opt (Atom (Lit CHR ''.''))) (Plus (Atom Space)))) t
   = numbered_section t"
proof -
  let ?R = "Seq (Opt (Atom (Lit CHR ''.''))) (Plus (Atom Space))"
  have R: "re_match ?R s =
      (case s of [] \<Rightarrow> False
       | c # cs \<Rightarrow> is_space c \<or> (c = CHR ''.'' \<and> (case cs of [] \<Rightarrow> False | w # u \<Rightarrow> is_space w)))" for s
    by (auto simp: re_match_Seq_Opt re_match_Seq_Atom re_match_Plus_Atom split: list.splits)
  have no_digit: "\<not> re_match ?R (c # cs)" if "in_cls Digit c" for c cs
    using that digit_not_space[of c] digit_not_dot[of c] by (simp add: R)
  have run: "re_match (Seq (Star (Atom Digit)) ?R) s = re_match ?R (dropWhile is_digit s)" for s
    using re_match_Star_dropWhile[of Digit ?R s] no_digit by (simp add: in_cls_eqs)
  have "re_match (Seq (Plus (Atom Digit)) ?R) t =
          (case t of [] \<Rightarrow> False | c # cs \<Rightarrow> is_digit c \<and> re_match (Seq (Star (Atom Digit)) ?R) cs)"
    by (cases t) (simp_all add: re_match_Seq_Plus re_match_Seq_Atom)
  also have "\<dots> = (case t of [] \<Rightarrow> False | c # cs \<Rightarrow> is_digit c \<and> re_match ?R (dropWhile is_digit cs))"
    by (cases t) (simp_all add: run)
  also have "\<dots> = numbered_section t"
    by (cases t) (simp_all add: R numbered_section_def)
  finally show ?thesis .
qed

lemma pattern_title_case:
  "re_match (Seq (Atom UpperAZ) (Seq (Star (Atom LowerAZ)) (Seq (Plus (Atom Space)) (Atom UpperAZ)))) t
   = title_case_start t"
proof -
  let ?U = "Atom UpperAZ"
  let ?R = "Seq (Plus (Atom Space)) ?U"
  have U: "re_match ?U s = (case s of [] \<Rightarrow> False | u # us \<Rightarrow> is_upper_AZ u)" for s
    by (cases s) (simp_all add: re_match_Atom)
  have no_space: "\<not> re_match ?U (c # cs)" if "in_cls Space c" for c cs
    using that space_not_upper[of c] by (simp add: re_match_Atom)
  have spaces: "re_match (Seq (Star (Atom Space)) ?U) s = re_match ?U (dropWhile is_space s)" for s
    using re_match_Star_dropWhile[of Space ?U s] no_space by (simp add: in_cls_eqs)
  have R: "re_match ?R s =
      (case s of [] \<Rightarrow> False
       | w # ws \<Rightarrow> is_space w \<and> (case dropWhile is_space ws of [] \<Rightarrow> False | u # us \<Rightarrow> is_upper_AZ u))" for s
  proof -
    have "re_match ?R s =
        (case s of [] \<Rightarrow> False | w # ws \<Rightarrow> is_space w \<and> re_match (Seq (Star (Atom Space)) ?U) ws)"
      by (cases s) (simp_all add: re_match_Seq_Plus re_match_Seq_Atom)
    also have "\<dots> = (case s of [] \<Rightarrow> False | w # ws \<Rightarrow> is_space w \<and> re_match ?U (dropWhile is_space ws))"
      by (cases s) (simp_all add: spaces)
    finally show ?thesis by (cases s) (simp_all add: U)
  qed
  have no_lower: "\<not> re_match ?R (c # cs)" if "in_cls LowerAZ c" for c cs
    using that lower_not_space[of c] by (simp add: R)
  have run: "re_match (Seq (Star (Atom LowerAZ)) ?R) s = re_match ?R (dropWhile is_lower_az s)" for s
    using re_match_Star_dropWhile[of LowerAZ ?R s] no_lower by (simp add: in_cls_eqs)
  have "re_match (Seq ?U (Seq (Star (Atom LowerAZ)) ?R)) t =
          (case t of [] \<Rightarrow> False | c # cs \<Rightarrow> is_upper_AZ c \<and> re_match (Seq (Star (Atom LowerAZ)) ?R) cs)"
    by (cases t) (simp_all add: re_match_Seq_Atom)
  also have "\<dots> = (case t of [] \<Rightarrow> False | c # cs \<Rightarrow> is_upper_AZ c \<and> re_match ?R (dropWhile is_lower_az cs))"
    by (cases t) (simp_all add: run)
  also have "\<dots> = title_case_start t"
    by (cases t) (simp_all add: R title_case_start_def)
  finally show ?thesis .
qed

lemma pattern_all_upper:
  "re_match (Seq (Plus (Atom (Either UpperAZ Space))) Eos) t = all_upper t"
proof -
  let ?A = "Atom (Either UpperAZ Space)"
  have run: "re_match (Seq (Star ?A) Eos) s = list_all (\<lambda>c. is_upper_AZ c \<or> is_space c) s" for s
  proof (induction s)
    case Nil
    then show ?case by (simp add: re_match_Seq_Star_Atom[of _ _ "[]"] re_match_Eos at_end_def)
  next
    case (Cons c cs)
    show ?case
      using Cons.IH lf_is_space
      by (subst re_match_Seq_Star_Atom) (auto simp: re_match_Eos at_end_def)
  qed
  show ?thesis
    by (cases t) (simp_all add: re_match_Seq_Plus re_match_Seq_Atom run all_upper_def)
qed

lemma pattern_dotted:
  "re_match (Seq (Plus (Atom Word)) (Seq (Atom (Lit CHR ''.'')) (Plus (Atom Digit)))) t
   = dotted_subsection t"
proof -
  let ?R = "Seq (Atom (Lit CHR ''.'')) (Plus (Atom Digit))"
  have R: "re_match ?R s = (case s of d # n # u \<Rightarrow> d = CHR ''.'' \<and> is_digit n | _ \<Rightarrow> False)" for s
    by (simp add: re_match_Seq_Atom re_match_Plus_Atom split: list.splits)
  have no_word: "\<not> re_match ?R (c # cs)" if "in_cls Word c" for c cs
    using that word_not_dot[of c] by (simp add: R split: list.splits)
  have run: "re_match (Seq (Star (Atom Word)) ?R) s = re_match ?R (dropWhile is_word s)" for s
    using re_match_Star_dropWhile[of Word ?R s] no_word by (simp add: in_cls_eqs)
  have "re_match (Seq (Plus (Atom Word)) ?R) t =
          (case t of [] \<Rightarrow> False | c # cs \<Rightarrow> is_word c \<and> re_match (Seq (Star (Atom Word)) ?R) cs)"
    by (cases t) (simp_all add: re_match_Seq_Plus re_match_Seq_Atom)
  also have "\<dots> = (case t of [] \<Rightarrow> False | c # cs \<Rightarrow> is_word c \<and> re_match ?R (dropWhile is_word cs))"
    by (cases t) (simp_all add: run)
  also have "\<dots> = dotted_subsection t"
    by (cases t) (simp_all add: R dotted_subsection_def)
  finally show ?thesis .
qed

lemma any_heading_pattern:
  "any_pattern heading_patterns t =
     (numbered_section t \<or> title_case_start t \<or> all_upper t \<or> dotted_subsection t)"
  by (simp add: heading_patterns_def pattern_numbered pattern_title_case pattern_all_upper
        pattern_dotted)


text \<open>
  C2. The classifier accepts a line exactly when the stripped text has between 3 and
  150 characters, has at most 100 characters or ends with a colon, and one of these
  holds: it starts like a numbered section, it starts in title case, it consists of
  capitals and white space only, it starts like a dotted sub-section, or the line's
  font size exceeds 1.1 times the average font size.
\<close>

theorem heading_classifier_rules:
  "is_potential_heading text font_size avg page_width \<longleftrightarrow>
     (let t = strip text in
      3 \<le> length t \<and> length t \<le> 150 \<and>
      (length t \<le> 100 \<or> endswith t CHR '':'') \<and>
      (numbered_section t \<or> title_case_start t \<or> all_upper t \<or> dotted_subsection t \<or>
       font_size > 11 / 10 * avg))"
  by (auto simp: is_potential_heading_def Let_def any_heading_pattern mult.commute)

theorem heading_classifier_rules_witness:
  "is_potential_heading ''  1. Introduction '' 10 10 600 \<and>
   numbered_section ''1. Introduction'' \<and>
   is_potential_heading ''plain words'' 12 10 600 \<and>
   \<not> is_potential_heading ''plain words'' 11 10 600"
  using heading_classifier_rules[of "''  1. Introduction ''" 10 10 600]
    heading_classifier_rules[of "''plain words''" 12 10 600]
    heading_classifier_rules[of "''plain words''" 11 10 600]
  by (simp add: strip_def endswith_def numbered_section_def title_case_start_def all_upper_def
        dotted_subsection_def is_space_def is_digit_def is_upper_AZ_def is_lower_az_def
        is_word_def code_def)

section \<open>Properties of deduplication\<close>

lemma dedup_fold_seen:
  "fst (fold dedup_step hs st) = fst st \<union> {k \<in> text_key ` set hs. 2 < length k}"
proof (induction hs arbitrary: st)
  case Nil
  then show ?case by simp
next
  case (Cons h hs)
  show ?case
    by (simp add: Cons.IH) (auto simp: dedup_step_def Let_def)
qed

lemma dedup_fold_unique:
  "snd (fold dedup_step (hs @ [h]) st) =
     snd (fold dedup_step hs st) @
       (if text_key h \<notin> fst (fold dedup_step hs st) \<and> 2 < length (text_key h) then [h] else [])"
  by (simp add: dedup_step_def Let_def)

lemma unique_headings_Nil: "unique_headings [] = []"
  by (simp add: unique_headings_def)

lemma unique_headings_snoc:
  "unique_headings (hs @ [h]) =
     unique_headings hs @
       (if text_key h \<notin> text_key ` set hs \<and> 2 < length (text_key h) then [h] else [])"
  unfolding unique_headings_def dedup_fold_unique dedup_fold_seen by auto

lemma unique_headings_subset: "set (unique_headings hs) \<subseteq> set hs"
  by (induction hs rule: rev_induct) (auto simp: unique_headings_Nil unique_headings_snoc)

lemma unique_headings_distinct: "distinct (map text_key (unique_headings hs))"
proof (induction hs rule: rev_induct)
  case Nil
  then show ?case by (simp add: unique_headings_Nil)
next
  case (snoc h hs)
  then show ?case
    using unique_headings_subset[of hs] by (auto simp: unique_headings_snoc)
qed

text \<open>The positions deduplication keeps: a long enough key not met at an earlier position.\<close>

lemma unique_headings_first_occurrences:
  "unique_headings hs =
     map (nth hs)
       (filter (\<lambda>i. 2 < length (text_key (hs ! i)) \<and> (\<forall>j<i. text_key (hs ! j) \<noteq> text_key (hs ! i)))
          [0..<length hs])"
proof (induction hs rule: rev_induct)
  case Nil
  then show ?case by (simp add: unique_headings_Nil)
next
  case (snoc h hs)
  let ?P = "\<lambda>xs i. 2 < length (text_key (xs ! i)) \<and> (\<forall>j<i. text_key (xs ! j) \<noteq> text_key (xs ! i))"
  have same: "filter (?P (hs @ [h])) [0..<length hs] = filter (?P hs) [0..<length hs]"
    by (rule filter_cong) (auto simp: nth_append)
  have nth_same: "map (nth (hs @ [h])) (filter (?P hs) [0..<length hs])
                  = map (nth hs) (filter (?P hs) [0..<length hs])"
    by (rule map_cong) (auto simp: nth_append)
  have last: "?P (hs @ [h]) (length hs) \<longleftrightarrow> text_key h \<notin> text_key ` set hs \<and> 2 < length (text_key h)"
    by (auto simp: nth_append in_set_conv_nth image_iff) (metis nth_mem)
  show ?case
    using snoc.IH same nth_same last
    by (simp add: unique_headings_snoc)
qed

subsection \<open>Candidates come in page order\<close>

lemma collect_append:
  "collect (rs @ rs') =
     (case collect rs of
        Inl e \<Rightarrow> Inl e
      | Inr hs \<Rightarrow> (case collect rs' of Inl e \<Rightarrow> Inl e | Inr hs' \<Rightarrow> Inr (hs @ hs')))"
  by (induction rs rule: collect.induct) (auto split: sum.splits)

lemma collect_members:
  "collect rs = Inr hs \<Longrightarrow> h \<in> set hs \<Longrightarrow> Inr (Some h) \<in> set rs"
  by (induction rs arbitrary: hs rule: collect.induct) (auto split: sum.splits)

lemma process_line_page:
  "process_line set_iter avg page_num w cs = Inr (Some h) \<Longrightarrow> h_page h = page_num + 1"
  by (auto simp: process_line_def Let_def split: if_splits option.splits)

lemma page_results_page:
  assumes "collect (page_results set_iter avg (n, pg)) = Inr hs" and "h \<in> set hs"
  shows "h_page h = int n + 1"
proof -
  from collect_members[OF assms] have "Inr (Some h) \<in> set (page_results set_iter avg (n, pg))" .
  then obtain cs where "process_line set_iter avg (int n) (p_width pg) cs = Inr (Some h)"
    by (auto simp: page_results_def Let_def split: if_splits)
  then show ?thesis by (rule process_line_page)
qed

lemma candidates_from:
  "collect (concat (map (page_results set_iter avg) (enumerate k pages))) = Inr hs \<Longrightarrow>
     sorted (map h_page hs) \<and> (\<forall>h \<in> set hs. int k + 1 \<le> h_page h)"
proof (induction pages arbitrary: k hs)
  case Nil
  then show ?case by simp
next
  case (Cons pg pages)
  from Cons.prems obtain xs ys where
    xs: "collect (page_results set_iter avg (k, pg)) = Inr xs" and
    ys: "collect (concat (map (page_results set_iter avg) (enumerate (Suc k) pages))) = Inr ys" and
    hs: "hs = xs @ ys"
    by (auto simp: collect_append split: sum.splits)
  have px: "\<forall>h \<in> set xs. h_page h = int k + 1"
    using page_results_page[OF xs] by blast
  have py: "sorted (map h_page ys) \<and> (\<forall>h \<in> set ys. int (Suc k) + 1 \<le> h_page h)"
    using Cons.IH[OF ys] .
  have "sorted (map h_page xs)"
    using px by (simp add: sorted_wrt_iff_nth_less) 
  then show ?case
    using px py by (auto simp: hs sorted_append)
qed

lemma candidates_page_order:
  "potential_headings set_iter avg pages = Inr hs \<Longrightarrow> sorted (map h_page hs)"
  unfolding potential_headings_def using candidates_from[of set_iter avg 0 pages hs] by simp

subsection \<open>Sorting and the final outline\<close>

lemma sort_headings_mset: "mset (sort_headings hs) = mset hs"
  by (simp add: sort_headings_def)


lemma final_outline_length: "length (final_outline s) = length s"
  by (simp add: final_outline_def)



lemma distinct_keys_sort:
  "distinct (map text_key hs) \<Longrightarrow> distinct (map text_key (sort_headings hs))"
proof -
  assume d: "distinct (map text_key hs)"
  have "mset (map text_key (sort_headings hs)) = mset (map text_key hs)"
    by (simp add: sort_headings_mset)
  then show ?thesis using d by (metis mset_eq_imp_distinct_iff)
qed

lemma final_outline_keys:
  "map (\<lambda>e. strip (lower (e_text e))) (final_outline s) = map text_key s"
  by (simp add: final_outline_def comp_def text_key_def)

lemma content_outline_cases:
  "extract_outline_from_content set_iter pages = [] \<or>
   (\<exists>avg hs. avg_font_size pages = Some avg \<and> potential_headings set_iter avg pages = Inr hs \<and>
      extract_outline_from_content set_iter pages = final_outline (sort_headings (unique_headings hs)))"
  by (auto simp: extract_outline_from_content_def split: option.splits sum.splits)

lemma ex_potential_headings:
  "potential_headings remdups (40 / 3) [ex_page, ex_page] = Inr ex_candidates"
  by code_simp

section \<open>Properties of the ordering and of the level lookup\<close>


lemma sort_headings_stable:
  "filter (\<lambda>h. (h_page h, - h_font_size h) = k) (sort_headings hs)
   = filter (\<lambda>h. (h_page h, - h_font_size h) = k) hs"
  unfolding sort_headings_def by (rule sort_key_stable)



lemma final_outline_loop: "final_outline s = map fst (final_loop s)"
  by (simp add: final_outline_def final_loop_def get_heading_level_traced_def comp_def Let_def)

lemma content_outline_traced:
  "extract_outline_from_content set_iter pages
   = map fst (extract_outline_from_content_traced set_iter pages)"
  by (simp add: extract_outline_from_content_def extract_outline_from_content_traced_def
        final_outline_loop split: option.splits sum.splits)

lemma branch_not_found:
  "get_heading_level_branch q hier = NotFound \<longleftrightarrow>
     1 < length (sorted_sizes hier) \<and> py_index (sorted_sizes hier) q = None"
  by (auto simp: get_heading_level_branch_def Let_def split: option.splits)

lemma branch_found_member:
  "q \<in> set hier \<Longrightarrow> get_heading_level_branch q hier \<noteq> NotFound"
  by (simp add: branch_not_found py_index_None_iff sorted_sizes_props(3))

lemma final_loop_branches:
  "NotFound \<notin> snd ` set (final_loop s)"
proof
  assume "NotFound \<in> snd ` set (final_loop s)"
  then obtain h where h: "h \<in> set s"
    and "get_heading_level_branch (h_font_size h) (map h_font_size s) = NotFound"
    by (auto simp: final_loop_def get_heading_level_traced_def Let_def)
  moreover from h have "h_font_size h \<in> set (map h_font_size s)" by simp
  ultimately show False using branch_found_member by blast
qed

lemma traced_pipeline_branches:
  "NotFound \<notin> snd ` set (extract_outline_from_content_traced set_iter pages)"
  using final_loop_branches
  by (auto simp: extract_outline_from_content_traced_def split: option.splits sum.splits)

text \<open>
  C9. The outline of the content pipeline is the list of entries of its last loop,
  and no call of \<open>get_heading_level\<close> in that loop reaches the return of the
  \<open>ValueError\<close> branch, which is the return reached exactly when there are at least
  two distinct sizes and \<open>index\<close> does not find the queried one: the queried font
  size is the size of a heading of the very list the hierarchy is built from, so it
  is an element of the hierarchy and \<open>index\<close> finds it. The level a call returns
  is the one of the return statement recorded for it.
\<close>

theorem level_lookup_succeeds:
  "final_outline s = map fst (final_loop s) \<and>
   extract_outline_from_content set_iter pages
     = map fst (extract_outline_from_content_traced set_iter pages) \<and>
   fst (get_heading_level_traced q hier) = get_heading_level q hier \<and>
   get_heading_level q hier =
     (case snd (get_heading_level_traced q hier) of
        SingleSize \<Rightarrow> ''H1''
      | Indexed index \<Rightarrow> ''H'' @ str_nat (min (index + 1) 3)
      | NotFound \<Rightarrow> ''H3'') \<and>
   (snd (get_heading_level_traced q hier) = NotFound \<longleftrightarrow>
      1 < length (sorted_sizes hier) \<and> py_index (sorted_sizes hier) q = None) \<and>
   NotFound \<notin> snd ` set (final_loop s) \<and>
   NotFound \<notin> snd ` set (extract_outline_from_content_traced set_iter pages) \<and>
   (h \<in> set s \<longrightarrow>
      h_font_size h \<in> set (map h_font_size s) \<and>
      (\<exists>index. py_index (sorted_sizes (map h_font_size s)) (h_font_size h) = Some index \<and>
         get_heading_level (h_font_size h) (map h_font_size s) =
           (if length (sorted_sizes (map h_font_size s)) \<le> 1 then ''H1''
            else ''H'' @ str_nat (min (index + 1) 3))))"
proof -
  have last: "h_font_size h \<in> set (map h_font_size s) \<and>
      (\<exists>index. py_index (sorted_sizes (map h_font_size s)) (h_font_size h) = Some index \<and>
         get_heading_level (h_font_size h) (map h_font_size s) =
           (if length (sorted_sizes (map h_font_size s)) \<le> 1 then ''H1''
            else ''H'' @ str_nat (min (index + 1) 3)))" if "h \<in> set s"
  proof -
    have mem: "h_font_size h \<in> set (map h_font_size s)"
      using that by simp
    then have "py_index (sorted_sizes (map h_font_size s)) (h_font_size h) \<noteq> None"
      by (simp only: py_index_None_iff sorted_sizes_props(3)) simp
    then obtain index where
      "py_index (sorted_sizes (map h_font_size s)) (h_font_size h) = Some index"
      by blast
    then show ?thesis
      using mem by (simp add: get_heading_level_def)
  qed
  have tr: "fst (get_heading_level_traced q hier) = get_heading_level q hier"
    "snd (get_heading_level_traced q hier) = NotFound \<longleftrightarrow>
      1 < length (sorted_sizes hier) \<and> py_index (sorted_sizes hier) q = None"
    by (simp_all add: get_heading_level_traced_def branch_not_found)
  have br: "get_heading_level q hier =
     (case snd (get_heading_level_traced q hier) of
        SingleSize \<Rightarrow> ''H1''
      | Indexed index \<Rightarrow> ''H'' @ str_nat (min (index + 1) 3)
      | NotFound \<Rightarrow> ''H3'')"
    by (simp add: get_heading_level_traced_def get_heading_level_branch_def
          get_heading_level_def Let_def split: option.splits)
  show ?thesis
    using final_outline_loop[of s] content_outline_traced[of set_iter pages] tr br
      final_loop_branches[of s] traced_pipeline_branches[of set_iter pages] last
    by blast
qed

theorem level_lookup_succeeds_witness:
  "\<lparr>h_text = ''Beta'', h_page = 1, h_font_size = 14\<rparr>
     \<in> set [\<lparr>h_text = ''Alpha'', h_page = 1, h_font_size = 18\<rparr>,
            \<lparr>h_text = ''Beta'', h_page = 1, h_font_size = 14\<rparr>,
            \<lparr>h_text = ''Gamma'', h_page = 2, h_font_size = 20\<rparr>] \<and>
   map snd (final_loop
           [\<lparr>h_text = ''Alpha'', h_page = 1, h_font_size = 18\<rparr>,
            \<lparr>h_text = ''Beta'', h_page = 1, h_font_size = 14\<rparr>,
            \<lparr>h_text = ''Gamma'', h_page = 2, h_font_size = 20\<rparr>])
     = [Indexed 1, Indexed 2, Indexed 0] \<and>
   py_index (sorted_sizes (map h_font_size
           [\<lparr>h_text = ''Alpha'', h_page = 1, h_font_size = 18\<rparr>,
            \<lparr>h_text = ''Beta'', h_page = 1, h_font_size = 14\<rparr>,
            \<lparr>h_text = ''Gamma'', h_page = 2, h_font_size = 20\<rparr>])) 14 = Some 2 \<and>
   get_heading_level 14 (map h_font_size
           [\<lparr>h_text = ''Alpha'', h_page = 1, h_font_size = 18\<rparr>,
            \<lparr>h_text = ''Beta'', h_page = 1, h_font_size = 14\<rparr>,
            \<lparr>h_text = ''Gamma'', h_page = 2, h_font_size = 20\<rparr>]) = ''H3'' \<and>
   snd (get_heading_level_traced 19 [18, 14, 20]) = NotFound \<and>
   py_index (sorted_sizes [18, 14, 20]) 19 = None \<and>
   extract_outline_from_content_traced remdups [ex_page, ex_page]
     = [(\<lparr>e_level = ''H1'', e_text = ''TOP'', e_page = 1\<rparr>, SingleSize)]"
proof -
  let ?s = "[\<lparr>h_text = ''Alpha'', h_page = 1, h_font_size = 18\<rparr>,
            \<lparr>h_text = ''Beta'', h_page = 1, h_font_size = 14\<rparr>,
            \<lparr>h_text = ''Gamma'', h_page = 2, h_font_size = 20\<rparr>]"
  have m: "\<lparr>h_text = ''Beta'', h_page = 1, h_font_size = 14\<rparr> \<in> set ?s" by simp
  have ss: "sorted_sizes (map h_font_size ?s) = [20, 18, 14]"
    by (simp add: sorted_sizes_def)
  have ss': "sorted_sizes [18, 14, 20] = [20, 18, 14]"
    by (simp add: sorted_sizes_def)
  have b: "map snd (final_loop ?s) = [Indexed 1, Indexed 2, Indexed 0]"
    using ss by (simp add: final_loop_def get_heading_level_traced_def get_heading_level_branch_def
          Let_def numeral_2_eq_2)
  have n: "py_index (sorted_sizes [18, 14, 20]) 19 = None"
    by (simp add: ss')
  have t: "extract_outline_from_content_traced remdups [ex_page, ex_page]
     = [(\<lparr>e_level = ''H1'', e_text = ''TOP'', e_page = 1\<rparr>, SingleSize)]"
    by code_simp
  from level_lookup_succeeds[of ?s remdups "[ex_page, ex_page]" 19 "[18, 14, 20]"
      "\<lparr>h_text = ''Beta'', h_page = 1, h_font_size = 14\<rparr>"] m ss ss' b n t
  show ?thesis
    by (simp add: str_nat_Suc)
qed

section \<open>Properties of the average font size\<close>



lemma sum_list_positive:
  fixes xs :: "real list"
  shows "xs \<noteq> [] \<Longrightarrow> \<forall>x \<in> set xs. 0 < x \<Longrightarrow> 0 < sum_list xs"
proof (induction xs)
  case Nil
  then show ?case by simp
next
  case (Cons x xs)
  then show ?case
    by (cases xs) (auto intro: add_pos_pos)
qed

lemma avg_font_size_positive:
  assumes "avg_font_size pages = Some avg"
  shows "0 < avg"
proof -
  let ?xs = "all_font_sizes pages"
  from assms have ne: "?xs \<noteq> []" and avg: "avg = sum_list ?xs / of_nat (length ?xs)"
    by (auto simp: avg_font_size_def Let_def split: if_splits)
  have pos: "\<forall>x \<in> set ?xs. 0 < x"
    by (auto simp: all_font_sizes_def)
  have "0 < sum_list ?xs"
    using ne pos by (rule sum_list_positive)
  then show ?thesis using ne avg by simp
qed




section \<open>Properties of the dominant font size\<close>

lemma max_key_fold:
  fixes f :: "'a \<Rightarrow> nat"
  shows "\<exists>i \<le> length ys.
           (x # ys) ! i = fold (\<lambda>y best. if f y > f best then y else best) ys x \<and>
           (\<forall>j<i. f ((x # ys) ! j) < f ((x # ys) ! i)) \<and>
           (\<forall>j \<le> length ys. f ((x # ys) ! j) \<le> f ((x # ys) ! i))"
proof (induction ys rule: rev_induct)
  case Nil
  then show ?case by simp
next
  case (snoc y ys)
  let ?step = "\<lambda>y best. if f y > f best then y else best"
  let ?d = "fold ?step ys x"
  from snoc.IH obtain i where i: "i \<le> length ys" "(x # ys) ! i = ?d"
    "\<forall>j<i. f ((x # ys) ! j) < f ((x # ys) ! i)"
    "\<forall>j \<le> length ys. f ((x # ys) ! j) \<le> f ((x # ys) ! i)"
    by blast
  have old: "(x # ys @ [y]) ! j = (x # ys) ! j" if "j \<le> length ys" for j
    using that by (cases j) (simp_all add: nth_append)
  have new: "(x # ys @ [y]) ! Suc (length ys) = y"
    by (simp add: nth_append)
  show ?case
  proof (cases "f y > f ?d")
    case True
    then have r: "fold ?step (ys @ [y]) x = y" by simp
    have "\<forall>j<Suc (length ys). f ((x # ys @ [y]) ! j) < f y"
      using i(2,4) True old by (metis le_less_trans less_Suc_eq_le)
    moreover have "\<forall>j \<le> length (ys @ [y]). f ((x # ys @ [y]) ! j) \<le> f y"
      using i(2,4) True old new
      by (metis le_SucE length_append_singleton less_imp_le order_refl order_trans)
    ultimately show ?thesis
      using r new by (intro exI[of _ "Suc (length ys)"]) simp
  next
    case False
    then have r: "fold ?step (ys @ [y]) x = ?d" by simp
    have a: "(x # ys @ [y]) ! i = ?d" using i(1,2) old by simp
    have b: "\<forall>j<i. f ((x # ys @ [y]) ! j) < f ((x # ys @ [y]) ! i)"
    proof (intro allI impI)
      fix j assume ji: "j < i"
      then have "j \<le> length ys" using i(1) by simp
      then have "(x # ys @ [y]) ! j = (x # ys) ! j" by (rule old)
      moreover have "(x # ys @ [y]) ! i = (x # ys) ! i" using i(1) by (rule old)
      ultimately show "f ((x # ys @ [y]) ! j) < f ((x # ys @ [y]) ! i)"
        using i(3) ji by (simp only:)
    qed
    have c: "\<forall>j \<le> length (ys @ [y]). f ((x # ys @ [y]) ! j) \<le> f ((x # ys @ [y]) ! i)"
    proof (intro allI impI)
      fix j assume "j \<le> length (ys @ [y])"
      then consider "j \<le> length ys" | "j = Suc (length ys)" by fastforce
      then show "f ((x # ys @ [y]) ! j) \<le> f ((x # ys @ [y]) ! i)"
      proof cases
        case 1
        then show ?thesis using i(1,4) old by simp
      next
        case 2
        then show ?thesis using False a new by simp
      qed
    qed
    show ?thesis
      using i(1) a b c r by (intro exI[of _ i]) simp
  qed
qed

lemma py_max_key_first_max:
  fixes f :: "'a \<Rightarrow> nat"
  assumes "xs \<noteq> []"
  shows "\<exists>i < length xs. py_max_key f xs = Some (xs ! i) \<and>
           (\<forall>j<i. f (xs ! j) < f (xs ! i)) \<and> (\<forall>j < length xs. f (xs ! j) \<le> f (xs ! i))"
proof -
  from assms obtain x ys where xs: "xs = x # ys" by (cases xs) auto
  from max_key_fold[of ys x f] obtain i where "i \<le> length ys"
     "(x # ys) ! i = fold (\<lambda>y best. if f y > f best then y else best) ys x"
     "\<forall>j<i. f ((x # ys) ! j) < f ((x # ys) ! i)"
     "\<forall>j \<le> length ys. f ((x # ys) ! j) \<le> f ((x # ys) ! i)"
    by blast
  then show ?thesis
    unfolding xs by (intro exI[of _ i]) (simp add: less_Suc_eq_le)
qed

lemma ascending_iter_ok: "set_iter_ok ascending_iter"
  by (simp add: set_iter_ok_def ascending_iter_def)

text \<open>
  C8, as the program has it. The dominant font size of a line is a size that occurs
  most often among the sizes of the line; among the sizes that occur equally often it
  is the one the set of the sizes yields first when iterated, which need not be the
  one seen first in the line.
\<close>

theorem dominant_most_frequent:
  assumes "set_iter_ok set_iter" and "font_sizes \<noteq> []"
  shows "\<exists>i < length (set_iter font_sizes).
           dominant_font_size set_iter font_sizes = Some (set_iter font_sizes ! i) \<and>
           set_iter font_sizes ! i \<in> set font_sizes \<and>
           (\<forall>x \<in> set font_sizes. count_list font_sizes x \<le> count_list font_sizes (set_iter font_sizes ! i)) \<and>
           (\<forall>j<i. count_list font_sizes (set_iter font_sizes ! j)
                    < count_list font_sizes (set_iter font_sizes ! i))"
proof -
  let ?it = "set_iter font_sizes"
  let ?f = "count_list font_sizes"
  from assms have it: "set ?it = set font_sizes"
    by (simp add: set_iter_ok_def)
  with assms(2) have ne: "?it \<noteq> []"
    by (metis set_empty)
  from py_max_key_first_max[OF ne, of ?f] obtain i where i: "i < length ?it"
    "py_max_key ?f ?it = Some (?it ! i)" "\<forall>j<i. ?f (?it ! j) < ?f (?it ! i)"
    "\<forall>j < length ?it. ?f (?it ! j) \<le> ?f (?it ! i)"
    by blast
  have mem: "?it ! i \<in> set font_sizes"
    using i(1) it nth_mem by blast
  have most: "\<forall>x \<in> set font_sizes. ?f x \<le> ?f (?it ! i)"
    using i(4) it by (metis in_set_conv_nth)
  show ?thesis
    using i(1,2,3) mem most by (auto simp: dominant_font_size_def)
qed

theorem dominant_most_frequent_witness:
  "set_iter_ok ascending_iter \<and> [12, 10, 12] \<noteq> ([] :: real list) \<and>
   dominant_font_size ascending_iter [12, 10, 12] = Some 12 \<and>
   ascending_iter [12, 10, 12] = [10, 12]"
proof -
  have ne: "[12, 10, 12] \<noteq> ([] :: real list)" by simp
  have d: "dominant_font_size ascending_iter [12, 10, 12] = Some 12"
    by (simp add: dominant_font_size_def ascending_iter_def)
  have a: "ascending_iter [12, 10, 12] = [10, 12]"
    by (simp add: ascending_iter_def)
  from dominant_most_frequent[OF ascending_iter_ok ne] ascending_iter_ok ne d a
  show ?thesis by simp
qed

text \<open>
  With the sizes 12 and 10 once each, the set is iterated 10 first, so the dominant
  size is 10 although 12 is seen first in the line.
\<close>

theorem dominant_first_seen_counterexample:
  "set_iter_ok ascending_iter \<and>
   dominant_font_size ascending_iter [12, 10] = Some 10 \<and>
   first_seen_mode [12, 10] = Some 12 \<and>
   dominant_font_size ascending_iter [12, 10] \<noteq> first_seen_mode [12, 10]"
  using ascending_iter_ok
  by (simp add: dominant_font_size_def ascending_iter_def first_seen_mode_def)

section \<open>Properties of lines without font sizes\<close>

lemma strip_no_outer_space:
  "strip s = [] \<or> (\<not> is_space (hd (strip s)) \<and> \<not> is_space (last (strip s)))"
proof (cases "strip s = []")
  case True
  then show ?thesis by simp
next
  case False
  let ?a = "dropWhile is_space s"
  let ?r = "dropWhile is_space (rev ?a)"
  have s: "strip s = rev ?r" by (simp add: strip_def)
  with False have r: "?r \<noteq> []" by simp
  then have "\<not> is_space (hd ?r)" by (rule hd_dropWhile)
  then have l: "\<not> is_space (last (strip s))"
    using r by (simp add: s last_rev)
  have "rev ?a = takeWhile is_space (rev ?a) @ ?r" by simp
  then have "?a = rev ?r @ rev (takeWhile is_space (rev ?a))"
    by (metis rev_append rev_rev_ident)
  then have a: "?a = strip s @ rev (takeWhile is_space (rev ?a))" by (simp add: s)
  with False have "hd ?a = hd (strip s)" by (metis hd_append2)
  moreover have "?a \<noteq> []" using a False by (metis Nil_is_append_conv)
  then have "\<not> is_space (hd ?a)" by (rule hd_dropWhile)
  ultimately show ?thesis using l by simp
qed

lemma strip_idem: "strip (strip s) = strip s"
proof (cases "strip s = []")
  case True
  have "strip [] = []" by (simp add: strip_def)
  with True show ?thesis by simp
next
  case False
  with strip_no_outer_space[of s]
  have h: "\<not> is_space (hd (strip s))" and l: "\<not> is_space (last (strip s))" by auto
  have "dropWhile is_space (strip s) = strip s"
    using h False by (simp add: dropWhile_eq_self_iff)
  moreover have "dropWhile is_space (rev (strip s)) = rev (strip s)"
    using l False by (simp add: dropWhile_eq_self_iff hd_rev)
  ultimately show ?thesis
    by (simp add: strip_def[of "strip s"])
qed

lemma is_potential_heading_iff:
  "is_potential_heading text font_size avg page_width \<longleftrightarrow>
     (let t = strip text in
      3 \<le> length t \<and> length t \<le> 150 \<and>
      (length t \<le> 100 \<or> endswith t CHR '':'') \<and>
      (numbered_section t \<or> title_case_start t \<or> all_upper t \<or> dotted_subsection t \<or>
       font_size > 11 / 10 * avg))"
  by (auto simp: is_potential_heading_def Let_def any_heading_pattern mult.commute)

lemma dominant_single:
  assumes "set_iter_ok set_iter" and "xs \<noteq> []" and "\<forall>x \<in> set xs. x = a"
  shows "dominant_font_size set_iter xs = Some a"
proof -
  from assms(2,3) have sx: "set xs = {a}" by (cases xs) auto
  from assms(1) have "distinct (set_iter xs)" "set (set_iter xs) = {a}"
    by (simp_all add: set_iter_ok_def sx)
  then have "length (set_iter xs) = 1" "set (set_iter xs) = {a}"
    using distinct_card[of "set_iter xs"] by simp_all
  then have "set_iter xs = [a]"
    by (cases "set_iter xs") auto
  then show ?thesis by (simp add: dominant_font_size_def)
qed

lemma process_line_heading:
  assumes "dominant_font_size set_iter (line_font_sizes avg (line_chars_of cs)) = Some d"
  shows "process_line set_iter avg page_num w cs =
           (if is_potential_heading (line_text_of (line_chars_of cs)) d avg w
            then Inr (Some \<lparr>h_text = line_text_of (line_chars_of cs), h_page = page_num + 1,
                             h_font_size = d\<rparr>)
            else Inr None)"
proof (cases "line_text_of (line_chars_of cs) = []")
  case True
  have "strip [] = []" by (simp add: strip_def)
  then have "\<not> is_potential_heading [] d avg w"
    by (simp add: is_potential_heading_def)
  with True show ?thesis by (simp add: process_line_def)
next
  case False
  then show ?thesis using assms by (simp add: process_line_def)
qed

text \<open>
  C10. In a document whose average font size is \<open>avg\<close>, take a line none of whose
  glyphs has a size. Then \<open>avg\<close> is positive, the line's dominant font size is \<open>avg\<close>,
  the font-size rule \<open>avg > 1.1 * avg\<close> is false, and the line becomes a candidate
  exactly when its text meets the length conditions and one of the four lexical rules.
\<close>

theorem sizeless_line_needs_pattern:
  assumes "avg_font_size pages = Some avg" and "set_iter_ok set_iter"
    and "cs \<noteq> []" and "\<forall>c \<in> set cs. g_size c = None"
  shows "0 < avg \<and>
         dominant_font_size set_iter (line_font_sizes avg (line_chars_of cs)) = Some avg \<and>
         \<not> avg > avg * (11 / 10) \<and>
         process_line set_iter avg page_num w cs =
           (let t = line_text_of (line_chars_of cs) in
            if 3 \<le> length t \<and> length t \<le> 150 \<and> (length t \<le> 100 \<or> endswith t CHR '':'') \<and>
               (numbered_section t \<or> title_case_start t \<or> all_upper t \<or> dotted_subsection t)
            then Inr (Some \<lparr>h_text = t, h_page = page_num + 1, h_font_size = avg\<rparr>)
            else Inr None)"
proof -
  have pos: "0 < avg" using assms(1) by (rule avg_font_size_positive)
  let ?fs = "line_font_sizes avg (line_chars_of cs)"
  have "length ?fs = length cs"
    by (simp add: line_font_sizes_def line_chars_of_def)
  with assms(3) have "?fs \<noteq> []"
    by (metis length_0_conv)
  moreover have "\<forall>x \<in> set ?fs. x = avg"
    using assms(4) by (auto simp: line_font_sizes_def line_chars_of_def dict_get_def)
  ultimately have dom: "dominant_font_size set_iter ?fs = Some avg"
    using assms(2) dominant_single by blast
  have rule: "\<not> avg > avg * (11 / 10)" using pos by simp
  have t: "strip (line_text_of (line_chars_of cs)) = line_text_of (line_chars_of cs)"
    by (simp add: line_text_of_def strip_idem)
  have "\<not> avg > 11 / 10 * avg" using pos by simp
  then have cls: "is_potential_heading (line_text_of (line_chars_of cs)) avg avg w \<longleftrightarrow>
      (let t = line_text_of (line_chars_of cs) in
       3 \<le> length t \<and> length t \<le> 150 \<and> (length t \<le> 100 \<or> endswith t CHR '':'') \<and>
       (numbered_section t \<or> title_case_start t \<or> all_upper t \<or> dotted_subsection t))"
    by (simp add: is_potential_heading_iff t Let_def)
  show ?thesis
    using pos dom rule
    by (simp add: process_line_heading[OF dom] cls Let_def)
qed


theorem sizeless_line_needs_pattern_witness:
  "avg_font_size [ex_page] = Some (40 / 3) \<and> set_iter_ok ascending_iter \<and>
   ex_sizeless_line \<noteq> [] \<and> map g_size ex_sizeless_line = [None, None] \<and>
   dominant_font_size ascending_iter (line_font_sizes (40 / 3) (line_chars_of ex_sizeless_line))
     = Some (40 / 3) \<and>
   process_line ascending_iter (40 / 3) 0 600 ex_sizeless_line
     = Inr (Some \<lparr>h_text = ''CHAPTER ONE'', h_page = 1, h_font_size = 40 / 3\<rparr>)"
proof -
  have a: "avg_font_size [ex_page] = Some (40 / 3)"
    by (simp add: avg_font_size_def all_font_sizes_def ex_page_def ex_glyph_def dict_get_def)
  have n: "ex_sizeless_line \<noteq> []" and s: "\<forall>c \<in> set ex_sizeless_line. g_size c = None"
    by (simp_all add: ex_sizeless_line_def)
  have t: "line_text_of (line_chars_of ex_sizeless_line) = ''CHAPTER ONE''"
    by (simp add: line_text_of_def line_chars_of_def ex_sizeless_line_def dict_get_def strip_def
          is_space_def code_def)
  have u: "all_upper ''CHAPTER ONE''"
    by (simp add: all_upper_def is_upper_AZ_def is_space_def code_def)
  have m: "map g_size ex_sizeless_line = [None, None]"
    by (simp add: ex_sizeless_line_def)
  from sizeless_line_needs_pattern[OF a ascending_iter_ok n s, of 0 600] a ascending_iter_ok n m t u
  show ?thesis by (simp add: endswith_def)
qed

section \<open>Properties of the title resolver\<close>

subsection \<open>Grouping\<close>

lemma map_of_group_add:
  "map_of (group_add key c G) k =
     (if k = key c then Some (lookup G k @ [c]) else map_of G k)"
  by (auto simp: group_add_def lookup_def update_conv' map_add_def split: option.splits)

lemma map_of_group_fold:
  "map_of (fold (group_add key) cs G) k =
     (if k \<in> key ` set cs then Some (lookup G k @ filter (\<lambda>c. key c = k) cs) else map_of G k)"
proof (induction cs arbitrary: G)
  case Nil
  then show ?case by simp
next
  case (Cons c cs)
  have l: "lookup (group_add key c G) k = (if k = key c then lookup G k @ [c] else lookup G k)"
    by (simp add: lookup_def[of "group_add key c G"] map_of_group_add) (simp add: lookup_def)
  have none: "filter (\<lambda>a. key a = k) cs = []" if "k \<notin> key ` set cs"
    using that by (auto simp: filter_empty_conv)
  show ?case
    by (auto simp: Cons.IH l map_of_group_add none)
qed

lemma map_of_group_by:
  "map_of (group_by key cs) k =
     (if k \<in> key ` set cs then Some (filter (\<lambda>c. key c = k) cs) else None)"
  by (simp add: group_by_def map_of_group_fold lookup_def)

lemma lookup_group_by: "lookup (group_by key cs) k = filter (\<lambda>c. key c = k) cs"
proof (cases "k \<in> key ` set cs")
  case True
  then show ?thesis
    by (simp add: lookup_def map_of_group_by)
next
  case False
  then have "filter (\<lambda>c. key c = k) cs = []"
    by (auto simp: filter_empty_conv)
  with False show ?thesis
    by (simp add: lookup_def map_of_group_by)
qed

lemma keys_group_by: "set (map fst (group_by key cs)) = key ` set cs"
proof -
  have "dom (map_of (group_by key cs)) = key ` set cs"
    by (auto simp: map_of_group_by dom_def)
  then show ?thesis by (simp add: dom_map_of_conv_image_fst)
qed

lemma py_max_Max: "xs \<noteq> [] \<Longrightarrow> py_max xs = Some (Max (set xs))"
proof -
  assume "xs \<noteq> []"
  then obtain x ys where xs: "xs = x # ys" by (cases xs) auto
  have "(\<lambda>y best. if y > best then y else best) = (max :: real \<Rightarrow> real \<Rightarrow> real)"
    by (intro ext) (simp add: max_def)
  then show ?thesis
    using Max.set_eq_fold[of x ys] by (simp add: xs)
qed

subsection \<open>The steps of the title resolver\<close>

lemma first_title_line_in_range: "first_title_line (split_nl txt) = first_line_in_range txt"
proof -
  have "(\<lambda>line::string. length line > 5 \<and> length line < 150)
        = (\<lambda>line. 6 \<le> length line \<and> length line \<le> 149)"
    by (intro ext) auto
  then show ?thesis by (simp add: first_title_line_def first_line_in_range_def)
qed

lemma first_line_in_range_nonempty: "first_line_in_range txt = Some l \<Longrightarrow> l \<noteq> []"
  by (auto simp: first_line_in_range_def find_Some_iff)

lemma first_line_in_range_Nil: "first_line_in_range [] = None"
  by (simp add: first_line_in_range_def strip_def)

lemma largest_font_line_group:
  assumes "chars \<noteq> []"
  shows "largest_font_line chars =
           first_line_in_range (strip (concat (map g_text (largest_size_group chars))))"
proof -
  let ?key = "\<lambda>c. dict_get (g_size c) 0"
  have key: "?key = glyph_size" by (intro ext) (simp add: glyph_size_def)
  have keys: "set (map fst (group_by glyph_size chars)) = glyph_size ` set chars"
    by (rule keys_group_by)
  with assms have ne: "map fst (group_by glyph_size chars) \<noteq> []"
    by (metis empty_set image_is_empty set_empty)
  have "py_max (map fst (group_by glyph_size chars)) = Some (Max (glyph_size ` set chars))"
    using py_max_Max[OF ne] keys by simp
  then show ?thesis
    by (simp add: largest_font_line_def key lookup_group_by largest_size_group_def
          first_title_line_in_range)
qed

lemma fallback_line_text: "fallback_line p = first_text_line p"
  by (auto simp: fallback_line_def first_text_line_def first_title_line_in_range
        first_line_in_range_Nil split: option.splits)

lemma extract_title_from_metadata_eq: "extract_title_from_metadata d = metadata_title d"
  by (simp add: extract_title_from_metadata_def metadata_title_def Let_def split: option.splits)

lemma extract_title_from_content_eq:
  "extract_title_from_content d =
     (case first_page d of
        None \<Rightarrow> None
      | Some p \<Rightarrow>
          if p_chars p = [] then None
          else (case largest_font_title p of Some line \<Rightarrow> Some line | None \<Rightarrow> first_text_line p))"
  by (auto simp: extract_title_from_content_def first_page_def largest_font_line_group
        largest_font_title_def fallback_line_text split: option.splits list.splits)

lemma metadata_title_nonempty: "metadata_title d = Some t \<Longrightarrow> t \<noteq> []"
  by (auto simp: metadata_title_def split: option.splits if_splits)

lemma content_title_nonempty: "extract_title_from_content d = Some t \<Longrightarrow> t \<noteq> []"
  by (auto simp: extract_title_from_content_eq largest_font_title_def first_text_line_def
        split: option.splits if_splits dest: first_line_in_range_nonempty)

lemma extract_title_cases:
  "extract_title d =
     (case metadata_title d of
        Some t \<Rightarrow> t
      | None \<Rightarrow> (case extract_title_from_content d of Some t \<Rightarrow> t | None \<Rightarrow> ''Untitled Document''))"
  using metadata_title_nonempty[of d] content_title_nonempty[of d]
  by (auto simp: extract_title_def truthy_def extract_title_from_metadata_eq split: option.splits)

lemma largest_font_title_no_glyphs: "p_chars p = [] \<Longrightarrow> largest_font_title p = None"
  by (simp add: largest_font_title_def largest_size_group_def first_line_in_range_def strip_def)

text \<open>
  C6. The title is never empty. It is the first success of the chain: the stripped
  metadata title if that is not empty, else the first line in range of the glyphs
  of the largest font size on the first page, else the first line in range of the
  extracted text of the first page, else the literal \<open>Untitled Document\<close>; a step
  that fails yields no result and the next step is tried. The program does not read
  the extracted text of a first page without glyphs, so the chain is stated for
  documents in which such a page has no extracted line in range.
\<close>

theorem title_first_success:
  "extract_title d \<noteq> [] \<and>
   ((\<forall>p. first_page d = Some p \<and> p_chars p = [] \<longrightarrow> first_text_line p = None) \<longrightarrow>
      extract_title d = title_chain d)"
proof -
  have ne: "extract_title d \<noteq> []"
    using metadata_title_nonempty[of d] content_title_nonempty[of d]
    by (auto simp: extract_title_cases split: option.splits)
  have chain: "extract_title d = title_chain d"
    if h: "\<forall>p. first_page d = Some p \<and> p_chars p = [] \<longrightarrow> first_text_line p = None"
  proof (cases "first_page d")
    case None
    then show ?thesis
      by (simp add: extract_title_cases extract_title_from_content_eq title_chain_def
            split: option.splits)
  next
    case (Some p)
    show ?thesis
    proof (cases "p_chars p = []")
      case True
      with h Some have "first_text_line p = None" by simp
      with True Some show ?thesis
        by (simp add: extract_title_cases extract_title_from_content_eq title_chain_def
              largest_font_title_no_glyphs split: option.splits)
    next
      case False
      with Some show ?thesis
        by (simp add: extract_title_cases extract_title_from_content_eq title_chain_def
              split: option.splits)
    qed
  qed
  show ?thesis using ne chain by blast
qed


theorem title_first_success_witness:
  "first_page ex_document = Some (ex_page\<lparr>p_text := Some ''Body text''\<rparr>) \<and>
   p_chars (ex_page\<lparr>p_text := Some ''Body text''\<rparr>) \<noteq> [] \<and>
   metadata_title ex_document = None \<and>
   largest_font_title (ex_page\<lparr>p_text := Some ''Body text''\<rparr>) = None \<and>
   extract_title ex_document = ''Body text'' \<and>
   title_chain ex_document = ''Body text'' \<and>
   first_text_line \<lparr>p_width = 600, p_chars = [], p_text = None\<rparr> = None \<and>
   extract_title \<lparr>d_meta = None,
       d_pages = Some [\<lparr>p_width = 600, p_chars = [], p_text = None\<rparr>], d_outline = None\<rparr>
     = ''Untitled Document'' \<and>
   title_chain \<lparr>d_meta = None,
       d_pages = Some [\<lparr>p_width = 600, p_chars = [], p_text = None\<rparr>], d_outline = None\<rparr>
     = ''Untitled Document''"
proof -
  let ?e = "\<lparr>d_meta = None,
       d_pages = Some [\<lparr>p_width = 600, p_chars = [], p_text = None\<rparr>], d_outline = None\<rparr>"
  have fe: "first_text_line \<lparr>p_width = 600, p_chars = [], p_text = None\<rparr> = None"
    by (simp add: first_text_line_def)
  have he: "\<forall>p. first_page ?e = Some p \<and> p_chars p = [] \<longrightarrow> first_text_line p = None"
    using fe by (simp add: first_page_def)
  have te: "extract_title ?e = ''Untitled Document''"
    by (simp add: extract_title_def truthy_def extract_title_from_metadata_def
          extract_title_from_content_def)
  have fp: "first_page ex_document = Some (ex_page\<lparr>p_text := Some ''Body text''\<rparr>)"
    by (simp add: first_page_def ex_document_def)
  have ch: "p_chars (ex_page\<lparr>p_text := Some ''Body text''\<rparr>) \<noteq> []"
    by (simp add: ex_page_def)
  have h: "\<forall>p. first_page ex_document = Some p \<and> p_chars p = [] \<longrightarrow> first_text_line p = None"
    using fp ch by auto
  have m: "metadata_title ex_document = None"
    by (simp add: metadata_title_def ex_document_def strip_def is_space_def code_def)
  have l: "largest_font_title (ex_page\<lparr>p_text := Some ''Body text''\<rparr>) = None"
    by code_simp
  have t: "extract_title ex_document = ''Body text''"
    by code_simp
  from title_first_success[of ex_document] title_first_success[of ?e] h he fe te fp ch m l t
  show ?thesis by simp
qed

section \<open>The second pass raises no exception\<close>

text \<open>
  Every line the second pass looks up has at least one glyph, so \<open>max\<close> is never
  applied to an empty set and the pass ends without an exception, whatever order the
  sets are iterated in.
\<close>

lemma line_groups_nonempty:
  assumes "y \<in> set (line_keys (group_by key chars))"
  shows "lookup (group_by key chars) y \<noteq> []"
proof -
  from assms have "y \<in> set (map fst (group_by key chars))"
    by (simp add: line_keys_def)
  then have "y \<in> key ` set chars" by (simp only: keys_group_by)
  then show ?thesis
    by (auto simp: lookup_group_by filter_empty_conv)
qed

lemma py_max_key_None: "py_max_key f xs = None \<longleftrightarrow> xs = []"
  by (cases xs) simp_all

lemma process_line_no_error:
  assumes "set_iter_ok set_iter" and "cs \<noteq> []"
  shows "\<exists>r. process_line set_iter avg page_num w cs = Inr r"
proof -
  let ?fs = "line_font_sizes avg (line_chars_of cs)"
  have "length ?fs = length cs"
    by (simp add: line_font_sizes_def line_chars_of_def)
  with assms(2) have "set ?fs \<noteq> {}" by (metis length_0_conv set_empty)
  with assms(1) have "set_iter ?fs \<noteq> []"
    by (metis set_iter_ok_def set_empty)
  then have "dominant_font_size set_iter ?fs \<noteq> None"
    by (simp add: dominant_font_size_def py_max_key_None)
  then obtain d where "dominant_font_size set_iter ?fs = Some d"
    by blast
  then show ?thesis
    by (simp add: process_line_def Let_def)
qed

lemma collect_no_error:
  "\<forall>r \<in> set rs. \<exists>v. r = Inr v \<Longrightarrow> \<exists>hs. collect rs = Inr hs"
  by (induction rs rule: collect.induct) auto

lemma page_results_no_error:
  assumes "set_iter_ok set_iter" and "r \<in> set (page_results set_iter avg np)"
  shows "\<exists>v. r = Inr v"
proof -
  let ?lines = "group_by (\<lambda>c. dict_get (g_y0 c) 0) (p_chars (snd np))"
  from assms(2) obtain y where y: "y \<in> set (line_keys ?lines)"
    and r: "r = process_line set_iter avg (int (fst np)) (p_width (snd np)) (lookup ?lines y)"
    by (auto simp: page_results_def Let_def split: if_splits)
  from y have "lookup ?lines y \<noteq> []" by (rule line_groups_nonempty)
  with assms(1) r show ?thesis using process_line_no_error by blast
qed

lemma potential_headings_no_error:
  assumes "set_iter_ok set_iter"
  shows "\<exists>hs. potential_headings set_iter avg pages = Inr hs"
  unfolding potential_headings_def
  by (rule collect_no_error) (use assms page_results_no_error in auto)

section \<open>Document order and deduplication\<close>

subsection \<open>The lines of a page\<close>

lemma group_add_distinct:
  "distinct (map fst G) \<Longrightarrow> distinct (map fst (group_add key c G))"
  by (auto simp: group_add_def distinct_update map_of_eq_None_iff split: option.splits)

lemma group_fold_distinct:
  "distinct (map fst G) \<Longrightarrow> distinct (map fst (fold (group_add key) cs G))"
  by (induction cs arbitrary: G) (simp_all add: group_add_distinct)

lemma group_by_distinct: "distinct (map fst (group_by key cs))"
  by (simp add: group_by_def group_fold_distinct)

lemma line_keys_baselines:
  "line_keys (group_by glyph_y (p_chars pg)) = page_baselines pg"
proof -
  let ?ks = "map fst (group_by glyph_y (p_chars pg))"
  have "remdups ?ks = ?ks"
    using group_by_distinct[of glyph_y "p_chars pg"] by (rule distinct_remdups_id)
  then have "sort ?ks = sorted_list_of_set (set ?ks)"
    using sorted_list_of_set_sort_remdups[of ?ks] by (simp only:)
  also have "set ?ks = glyph_y ` set (p_chars pg)"
    by (rule keys_group_by)
  finally show ?thesis
    by (simp add: line_keys_def page_baselines_def)
qed

lemma page_results_lines:
  "page_results set_iter avg (n, pg) =
     map (\<lambda>y. process_line set_iter avg (int n) (p_width pg) (baseline_glyphs pg y))
         (page_baselines pg)"
proof -
  have key: "(\<lambda>c. dict_get (g_y0 c) 0) = glyph_y" by (intro ext) (simp add: glyph_y_def)
  show ?thesis
  proof (cases "p_chars pg = []")
    case True
    then show ?thesis by (simp add: page_results_def page_baselines_def)
  next
    case False
    then show ?thesis
      by (simp add: page_results_def key line_keys_baselines lookup_group_by baseline_glyphs_def)
  qed
qed

lemma page_baselines_descending: "sorted_wrt (\<lambda>y y'. y' < y) (page_baselines pg)"
proof -
  have "sorted_wrt (<) (sorted_list_of_set (glyph_y ` set (p_chars pg)))"
    by (simp add: strict_sorted_iff)
  then show ?thesis
    by (simp add: page_baselines_def sorted_wrt_rev)
qed


subsection \<open>The candidates follow the lines of the document\<close>

lemma collect_map_filter:
  "collect rs = Inr hs \<Longrightarrow>
     hs = List.map_filter (\<lambda>r. case r of Inr (Some h) \<Rightarrow> Some h | _ \<Rightarrow> None) rs"
  by (induction rs arbitrary: hs rule: collect.induct)
     (auto simp: List.map_filter_simps split: sum.splits)

lemma results_of_lines:
  "concat (map (page_results set_iter avg) (enumerate k pages)) =
     map (\<lambda>l. process_line set_iter avg (int (fst l)) (p_width (snd (snd l)))
                 (baseline_glyphs (snd (snd l)) (fst (snd l))))
         (lines_from k pages)"
proof -
  have "page_results set_iter avg =
      (\<lambda>np. map (\<lambda>l. process_line set_iter avg (int (fst l)) (p_width (snd (snd l)))
                 (baseline_glyphs (snd (snd l)) (fst (snd l))))
          (map (\<lambda>y. (fst np, y, snd np)) (page_baselines (snd np))))"
  proof (intro ext)
    fix np
    show "page_results set_iter avg np =
      map (\<lambda>l. process_line set_iter avg (int (fst l)) (p_width (snd (snd l)))
                 (baseline_glyphs (snd (snd l)) (fst (snd l))))
          (map (\<lambda>y. (fst np, y, snd np)) (page_baselines (snd np)))"
      using page_results_lines[of set_iter avg "fst np" "snd np"] by (simp add: comp_def)
  qed
  then show ?thesis
    by (simp add: lines_from_def map_concat comp_def)
qed

lemma map_filter_of_map: "List.map_filter g (map r xs) = List.map_filter (g \<circ> r) xs"
  by (induction xs) (simp_all split: option.splits)

lemma candidates_of_lines:
  assumes "potential_headings set_iter avg pages = Inr hs"
  shows "hs = List.map_filter (line_candidate set_iter avg) (document_lines pages)"
proof -
  have lc: "line_candidate set_iter avg =
      (\<lambda>r. case r of Inr (Some h) \<Rightarrow> Some h | _ \<Rightarrow> None) \<circ>
      (\<lambda>l. process_line set_iter avg (int (fst l)) (p_width (snd (snd l)))
                 (baseline_glyphs (snd (snd l)) (fst (snd l))))"
    by (intro ext) (simp add: line_candidate_def)
  from assms have "hs = List.map_filter (\<lambda>r. case r of Inr (Some h) \<Rightarrow> Some h | _ \<Rightarrow> None)
      (concat (map (page_results set_iter avg) (enumerate 0 pages)))"
    unfolding potential_headings_def by (rule collect_map_filter)
  then show ?thesis
    by (simp only: results_of_lines document_lines_def lc map_filter_of_map)
qed

lemma lines_from_order:
  "sorted_wrt before_in_document (lines_from k pages) \<and>
   (\<forall>l \<in> set (lines_from k pages). k \<le> fst l)"
proof (induction pages arbitrary: k)
  case Nil
  then show ?case by (simp add: lines_from_def)
next
  case (Cons pg pages)
  let ?here = "map (\<lambda>y. (k, y, pg)) (page_baselines pg)"
  have split: "lines_from k (pg # pages) = ?here @ lines_from (Suc k) pages"
    by (simp add: lines_from_def)
  have here: "sorted_wrt before_in_document ?here"
    using page_baselines_descending[of pg]
    by (simp add: sorted_wrt_map before_in_document_def)
  have later: "sorted_wrt before_in_document (lines_from (Suc k) pages)"
    and ge: "\<forall>l \<in> set (lines_from (Suc k) pages). Suc k \<le> fst l"
    using Cons.IH[of "Suc k"] by simp_all
  have cross: "\<forall>l \<in> set ?here. \<forall>l' \<in> set (lines_from (Suc k) pages). before_in_document l l'"
    using ge by (auto simp: before_in_document_def)
  show ?case
    using here later cross ge by (auto simp: split sorted_wrt_append)
qed

lemma document_lines_order: "sorted_wrt before_in_document (document_lines pages)"
  using lines_from_order[of 0 pages] by (simp add: document_lines_def)

text \<open>Every kept candidate comes from the first line, in the given order, that has its key.\<close>

lemma unique_headings_first_line:
  "\<forall>h \<in> set (unique_headings (List.map_filter f ls)).
     \<exists>i < length ls. f (ls ! i) = Some h \<and>
        (\<forall>j<i. \<forall>h'. f (ls ! j) = Some h' \<longrightarrow> text_key h' \<noteq> text_key h)"
proof (induction ls rule: rev_induct)
  case Nil
  then show ?case by (simp add: List.map_filter_simps unique_headings_Nil)
next
  case (snoc l ls)
  let ?hs = "List.map_filter f ls"
  have old: "\<exists>i < length (ls @ [l]). f ((ls @ [l]) ! i) = Some h \<and>
        (\<forall>j<i. \<forall>h'. f ((ls @ [l]) ! j) = Some h' \<longrightarrow> text_key h' \<noteq> text_key h)"
    if "h \<in> set (unique_headings ?hs)" for h
  proof -
    from snoc.IH that obtain i where i: "i < length ls" "f (ls ! i) = Some h"
      "\<forall>j<i. \<forall>h'. f (ls ! j) = Some h' \<longrightarrow> text_key h' \<noteq> text_key h"
      by blast
    then show ?thesis
      by (intro exI[of _ i]) (auto simp: nth_append)
  qed
  show ?case
  proof (cases "f l")
    case None
    then have "List.map_filter f (ls @ [l]) = ?hs"
      by (simp add: List.map_filter_def)
    then show ?thesis using old by simp
  next
    case (Some h0)
    then have app: "List.map_filter f (ls @ [l]) = ?hs @ [h0]"
      by (simp add: List.map_filter_def)
    have new: "\<exists>i < length (ls @ [l]). f ((ls @ [l]) ! i) = Some h0 \<and>
        (\<forall>j<i. \<forall>h'. f ((ls @ [l]) ! j) = Some h' \<longrightarrow> text_key h' \<noteq> text_key h0)"
      if fresh: "text_key h0 \<notin> text_key ` set ?hs"
    proof (intro exI[of _ "length ls"] conjI allI impI)
      show "length ls < length (ls @ [l])" by simp
      show "f ((ls @ [l]) ! length ls) = Some h0" using Some by simp
      fix j h' assume j: "j < length ls" and h': "f ((ls @ [l]) ! j) = Some h'"
      then have "f (ls ! j) = Some h'" by (simp add: nth_append)
      with j have "h' \<in> set ?hs"
        by (force simp: List.map_filter_def)
      with fresh show "text_key h' \<noteq> text_key h0" by (metis image_eqI)
    qed
    show ?thesis
      using old new by (auto simp: app unique_headings_snoc)
  qed
qed

text \<open>
  C4. The candidates are listed in document order: they are the candidates of the
  lines of the document, taken page after page and on each page from the highest
  baseline down. Deduplication keeps, in order, exactly the candidates whose key (the
  text in lower case, stripped) is longer than 2 characters and differs from the key
  of every earlier candidate, so each kept candidate comes from the first line in
  document order that yields its key; the kept candidates have pairwise different
  keys, and so have the entries of the final content outline.
\<close>

theorem dedup_first_occurrence:
  "unique_headings hs =
     map (nth hs)
       (filter (\<lambda>i. 2 < length (text_key (hs ! i)) \<and> (\<forall>j<i. text_key (hs ! j) \<noteq> text_key (hs ! i)))
          [0..<length hs]) \<and>
   distinct (map text_key (unique_headings hs)) \<and>
   distinct (map (\<lambda>e. strip (lower (e_text e))) (extract_outline_from_content set_iter pages)) \<and>
   sorted_wrt before_in_document (document_lines pages) \<and>
   (potential_headings set_iter avg pages = Inr hs \<longrightarrow>
      sorted (map h_page hs) \<and>
      hs = List.map_filter (line_candidate set_iter avg) (document_lines pages) \<and>
      (\<forall>h \<in> set (unique_headings hs).
         \<exists>i < length (document_lines pages).
           line_candidate set_iter avg (document_lines pages ! i) = Some h \<and>
           (\<forall>j<i. \<forall>h'. line_candidate set_iter avg (document_lines pages ! j) = Some h'
                      \<longrightarrow> text_key h' \<noteq> text_key h)))"
proof -
  have out: "distinct (map (\<lambda>e. strip (lower (e_text e))) (extract_outline_from_content set_iter pages))"
    using content_outline_cases[of set_iter pages]
  proof
    assume "extract_outline_from_content set_iter pages = []"
    then show ?thesis by simp
  next
    assume "\<exists>avg hs. avg_font_size pages = Some avg \<and> potential_headings set_iter avg pages = Inr hs \<and>
      extract_outline_from_content set_iter pages = final_outline (sort_headings (unique_headings hs))"
    then obtain cs where
      "extract_outline_from_content set_iter pages = final_outline (sort_headings (unique_headings cs))"
      by blast
    then show ?thesis
      by (simp add: final_outline_keys distinct_keys_sort unique_headings_distinct)
  qed
  have order: "sorted (map h_page hs) \<and>
      hs = List.map_filter (line_candidate set_iter avg) (document_lines pages) \<and>
      (\<forall>h \<in> set (unique_headings hs).
         \<exists>i < length (document_lines pages).
           line_candidate set_iter avg (document_lines pages ! i) = Some h \<and>
           (\<forall>j<i. \<forall>h'. line_candidate set_iter avg (document_lines pages ! j) = Some h'
                      \<longrightarrow> text_key h' \<noteq> text_key h))"
    if ph: "potential_headings set_iter avg pages = Inr hs"
  proof -
    have hs: "hs = List.map_filter (line_candidate set_iter avg) (document_lines pages)"
      using ph by (rule candidates_of_lines)
    have "\<forall>h \<in> set (unique_headings (List.map_filter (line_candidate set_iter avg) (document_lines pages))).
         \<exists>i < length (document_lines pages).
           line_candidate set_iter avg (document_lines pages ! i) = Some h \<and>
           (\<forall>j<i. \<forall>h'. line_candidate set_iter avg (document_lines pages ! j) = Some h'
                      \<longrightarrow> text_key h' \<noteq> text_key h)"
      by (rule unique_headings_first_line)
    then show ?thesis
      using hs candidates_page_order[OF ph] by simp
  qed
  show ?thesis
    using unique_headings_first_occurrences[of hs] unique_headings_distinct[of hs] out
      document_lines_order[of pages] order
    by blast
qed

lemma ex_twice_candidates:
  "potential_headings ascending_iter 25 [ex_twice_page]
   = Inr [\<lparr>h_text = ''TOP'', h_page = 1, h_font_size = 20\<rparr>,
          \<lparr>h_text = ''TOP'', h_page = 1, h_font_size = 30\<rparr>]"
  by code_simp

theorem dedup_first_occurrence_witness:
  "potential_headings ascending_iter 25 [ex_twice_page]
     = Inr [\<lparr>h_text = ''TOP'', h_page = 1, h_font_size = 20\<rparr>,
            \<lparr>h_text = ''TOP'', h_page = 1, h_font_size = 30\<rparr>] \<and>
   document_lines [ex_twice_page] = [(0, 750, ex_twice_page), (0, 700, ex_twice_page)] \<and>
   line_candidate ascending_iter 25 (0, 750, ex_twice_page)
     = Some \<lparr>h_text = ''TOP'', h_page = 1, h_font_size = 20\<rparr> \<and>
   unique_headings [\<lparr>h_text = ''TOP'', h_page = 1, h_font_size = 20\<rparr>,
                    \<lparr>h_text = ''TOP'', h_page = 1, h_font_size = 30\<rparr>]
     = [\<lparr>h_text = ''TOP'', h_page = 1, h_font_size = 20\<rparr>] \<and>
   potential_headings remdups (40 / 3) [ex_page, ex_page] = Inr ex_candidates \<and>
   unique_headings ex_candidates = [\<lparr>h_text = ''TOP'', h_page = 1, h_font_size = 20\<rparr>] \<and>
   sorted (map h_page ex_candidates) \<and>
   unique_headings [\<lparr>h_text = ''Introduction'', h_page = 2, h_font_size = 12\<rparr>,
                    \<lparr>h_text = ''introduction '', h_page = 5, h_font_size = 12\<rparr>]
     = [\<lparr>h_text = ''Introduction'', h_page = 2, h_font_size = 12\<rparr>]"
proof -
  have d: "document_lines [ex_twice_page] = [(0, 750, ex_twice_page), (0, 700, ex_twice_page)]"
    by (simp add: document_lines_def lines_from_def page_baselines_def ex_twice_page_def
          ex_glyph_def glyph_y_def dict_get_def sorted_list_of_set_sort_remdups[of "[700, 750]", simplified])
  have c: "line_candidate ascending_iter 25 (0, 750, ex_twice_page)
     = Some \<lparr>h_text = ''TOP'', h_page = 1, h_font_size = 20\<rparr>"
    by code_simp
  have t: "unique_headings [\<lparr>h_text = ''TOP'', h_page = 1, h_font_size = 20\<rparr>,
                    \<lparr>h_text = ''TOP'', h_page = 1, h_font_size = 30\<rparr>]
     = [\<lparr>h_text = ''TOP'', h_page = 1, h_font_size = 20\<rparr>]"
    by code_simp
  have u: "unique_headings ex_candidates = [\<lparr>h_text = ''TOP'', h_page = 1, h_font_size = 20\<rparr>]"
    by code_simp
  have i: "unique_headings [\<lparr>h_text = ''Introduction'', h_page = 2, h_font_size = 12\<rparr>,
                    \<lparr>h_text = ''introduction '', h_page = 5, h_font_size = 12\<rparr>]
     = [\<lparr>h_text = ''Introduction'', h_page = 2, h_font_size = 12\<rparr>]"
    by code_simp
  from dedup_first_occurrence[of ex_candidates remdups "[ex_page, ex_page]" "40 / 3"]
    dedup_first_occurrence[of "[\<lparr>h_text = ''TOP'', h_page = 1, h_font_size = 20\<rparr>,
            \<lparr>h_text = ''TOP'', h_page = 1, h_font_size = 30\<rparr>]" ascending_iter "[ex_twice_page]" 25]
    ex_potential_headings ex_twice_candidates d c t u i
  show ?thesis by simp
qed

end
